theory Spec2Isabelle
  imports
    Main
    "HOL-Library.AList"
    "HOL-Library.Char_ord"
    "HOL-Library.List_Lexorder"
    "HOL-Library.Sublist"
begin

section \<open>Python strings\<close>

text \<open>
  A Python \<open>str\<close> is modelled as a \<open>string\<close>, one \<open>char\<close> per code point, for the
  code points below 256. The built-in string methods used by the two scripts are
  written out below with the behaviour CPython gives them on that range.
\<close>

datatype py_error = KeyError string | ValueError string | OSError string

text \<open>
  \<open>str.isspace\<close> on one character: tab, line feed, vertical tab, form feed, carriage
  return, the four separators 0x1C to 0x1F, space, NEL (0x85) and the no-break space.
\<close>

definition whitespace_chars :: "char list" where
  "whitespace_chars =
     [CHR 0x09, CHR 0x0A, CHR 0x0B, CHR 0x0C, CHR 0x0D, CHR 0x1C, CHR 0x1D, CHR 0x1E,
      CHR 0x1F, CHR 0x20, CHR 0x85, CHR 0xA0]"

definition is_space :: "char \<Rightarrow> bool" where
  "is_space c = (c \<in> set whitespace_chars)"

text \<open>\<open>s.strip()\<close>: drop the whitespace at both ends.\<close>

definition strip :: "string \<Rightarrow> string" where
  "strip s = rev (dropWhile is_space (rev (dropWhile is_space s)))"

text \<open>\<open>s.startswith(p)\<close>.\<close>

definition startswith :: "string \<Rightarrow> string \<Rightarrow> bool" where
  "startswith p s = (take (length p) s = p)"

text \<open>\<open>sub in s\<close> on strings: \<open>sub\<close> occurs in \<open>s\<close> as a contiguous run.\<close>

fun str_in :: "string \<Rightarrow> string \<Rightarrow> bool" where
  "str_in sub [] = (sub = [])"
| "str_in sub (c # cs) = (startswith sub (c # cs) \<or> str_in sub cs)"

text \<open>
  \<open>str.lower\<close> on one character: \<open>A\<close> to \<open>Z\<close> and the Latin-1 capitals 0xC0 to 0xDE
  (the multiplication sign 0xD7 apart) move up by 32; every other character stays.
\<close>

definition lower_char :: "char \<Rightarrow> char" where
  "lower_char c =
     (let n = (of_char c :: nat) in
      if (65 \<le> n \<and> n \<le> 90) \<or> (192 \<le> n \<and> n \<le> 222 \<and> n \<noteq> 215)
      then char_of (n + 32) else c)"

definition lower :: "string \<Rightarrow> string" where
  "lower s = map lower_char s"

text \<open>\<open>s.split(sep)\<close> for a one-character separator: cut at every occurrence.\<close>

fun str_split_acc :: "char \<Rightarrow> string \<Rightarrow> string \<Rightarrow> string list" where
  "str_split_acc sep acc [] = [rev acc]"
| "str_split_acc sep acc (c # cs) =
     (if c = sep then rev acc # str_split_acc sep [] cs else str_split_acc sep (c # acc) cs)"

definition str_split :: "char \<Rightarrow> string \<Rightarrow> string list" where
  "str_split sep s = str_split_acc sep [] s"

text \<open>
  \<open>s.split(sep, 1)\<close> for a one-character separator: cut at the first occurrence only;
  a string without the separator comes back whole, as a one-element list.
\<close>

fun str_split1_acc :: "char \<Rightarrow> string \<Rightarrow> string \<Rightarrow> string list" where
  "str_split1_acc sep acc [] = [rev acc]"
| "str_split1_acc sep acc (c # cs) =
     (if c = sep then [rev acc, cs] else str_split1_acc sep (c # acc) cs)"

definition str_split1 :: "char \<Rightarrow> string \<Rightarrow> string list" where
  "str_split1 sep s = str_split1_acc sep [] s"

text \<open>\<open>sep.join(xs)\<close>.\<close>

fun join :: "string \<Rightarrow> string list \<Rightarrow> string" where
  "join sep [] = []"
| "join sep [x] = x"
| "join sep (x # y # ys) = x @ sep @ join sep (y # ys)"

text \<open>
  \<open>s.splitlines()\<close>: a line ends at a line feed, vertical tab, form feed, carriage
  return (with a following line feed taken into the same break), 0x1C, 0x1D, 0x1E or
  NEL; the breaks are dropped, and a text that ends in a break has no empty last line.
\<close>

definition linebreak_chars :: "char list" where
  "linebreak_chars =
     [CHR 0x0A, CHR 0x0B, CHR 0x0C, CHR 0x0D, CHR 0x1C, CHR 0x1D, CHR 0x1E, CHR 0x85]"

definition is_linebreak :: "char \<Rightarrow> bool" where
  "is_linebreak c = (c \<in> set linebreak_chars)"

fun splitlines_acc :: "string \<Rightarrow> string \<Rightarrow> string list" where
  "splitlines_acc acc [] = (if acc = [] then [] else [rev acc])"
| "splitlines_acc acc [c] = (if is_linebreak c then [rev acc] else [rev (c # acc)])"
| "splitlines_acc acc (c # d # cs) =
     (if c = CHR 0x0D \<and> d = CHR 0x0A then rev acc # splitlines_acc [] cs
      else if is_linebreak c then rev acc # splitlines_acc [] (d # cs)
      else splitlines_acc (c # acc) (d # cs))"

definition splitlines :: "string \<Rightarrow> string list" where
  "splitlines s = splitlines_acc [] s"

text \<open>\<open>str(n)\<close> for a natural number: its decimal digits.\<close>

definition digit_char :: "nat \<Rightarrow> char" where
  "digit_char d = char_of (48 + d)"

fun str_nat :: "nat \<Rightarrow> string" where
  "str_nat n = (if n < 10 then [digit_char n] else str_nat (n div 10) @ [digit_char (n mod 10)])"

declare str_nat.simps [simp del]

section \<open>The env validator: \<open>validate_openclaw_env.py\<close>\<close>

definition PLACEHOLDER_PATTERNS :: "string list" where
  "PLACEHOLDER_PATTERNS =
     [''changeme'', ''todo'', ''your-key'', ''your_token'', ''example'', ''replace-me'',
      ''placeholder'']"

text \<open>
  \<open>KEY_RE.match(key)\<close> for the pattern \<open>^[A-Za-z_][A-Za-z0-9_]*$\<close>. The classes are
  the ASCII ranges. The star is greedy over characters none of which is a line feed,
  and \<open>$\<close> matches at the end of the string and also just before a line feed that
  ends the string.
\<close>

definition ascii_letter :: "char \<Rightarrow> bool" where
  "ascii_letter c =
     (let n = (of_char c :: nat) in (65 \<le> n \<and> n \<le> 90) \<or> (97 \<le> n \<and> n \<le> 122))"

definition ascii_digit :: "char \<Rightarrow> bool" where
  "ascii_digit c = (let n = (of_char c :: nat) in 48 \<le> n \<and> n \<le> 57)"

definition key_start :: "char \<Rightarrow> bool" where
  "key_start c = (ascii_letter c \<or> c = CHR ''_'')"

definition key_char :: "char \<Rightarrow> bool" where
  "key_char c = (ascii_letter c \<or> ascii_digit c \<or> c = CHR ''_'')"

definition KEY_RE_match :: "string \<Rightarrow> bool" where
  "KEY_RE_match key =
     (case key of
        [] \<Rightarrow> False
      | c # cs \<Rightarrow>
          key_start c \<and>
          (let rest = dropWhile key_char cs in rest = [] \<or> rest = [CHR 0x0A]))"

text \<open>
  The dictionary \<open>values\<close> is an association list in insertion order with one entry per
  key: \<open>values[key] = value\<close> is \<open>AList.update\<close>, which overwrites in place or appends,
  and \<open>key in values\<close> is \<open>map_of values key \<noteq> None\<close>.
\<close>

type_synonym env_dict = "(string \<times> string) list"

type_synonym env_state = "env_dict \<times> string list \<times> (nat \<times> string) list"

text \<open>
  The body of the loop of \<open>parse_env\<close>, on line number \<open>idx\<close> with text \<open>raw_line\<close>.
  The unpacking \<open>key, value = line.split("=", 1)\<close> raises \<open>ValueError\<close> unless the
  list has two elements.
\<close>

definition parse_line :: "nat \<Rightarrow> string \<Rightarrow> env_state \<Rightarrow> py_error + env_state" where
  "parse_line idx raw_line st =
     (case st of (values, duplicates, malformed) \<Rightarrow>
        let line = strip raw_line in
        if line = [] \<or> startswith ''#'' line then Inr st
        else if \<not> str_in ''='' line then Inr (values, duplicates, malformed @ [(idx, raw_line)])
        else
          (case str_split1 (CHR ''='') line of
             [key0, value0] \<Rightarrow>
               let key = strip key0; value = strip value0 in
               if \<not> KEY_RE_match key
               then Inr (values, duplicates, malformed @ [(idx, raw_line)])
               else
                 Inr (AList.update key value values,
                      (if map_of values key \<noteq> None then duplicates @ [key] else duplicates),
                      malformed)
           | _ \<Rightarrow> Inl (ValueError ''not enough values to unpack'')))"

text \<open>
  The loop \<open>for idx, raw_line in enumerate(lines, start=1)\<close>, over the pairs that
  \<open>enumerate\<close> yields.
\<close>

fun parse_loop :: "(nat \<times> string) list \<Rightarrow> env_state \<Rightarrow> py_error + env_state" where
  "parse_loop [] st = Inr st"
| "parse_loop ((idx, raw_line) # rest) st =
     (case parse_line idx raw_line st of
        Inl e \<Rightarrow> Inl e
      | Inr st' \<Rightarrow> parse_loop rest st')"

text \<open>
  \<open>parse_env\<close>, from the text that \<open>env_path.read_text()\<close> returned: the lines are
  numbered from 1.
\<close>

definition parse_env :: "string \<Rightarrow> py_error + env_state" where
  "parse_env text = parse_loop (enumerate 1 (splitlines text)) ([], [], [])"

text \<open>\<open>is_placeholder\<close>: some pattern occurs in the lower-cased value.\<close>

definition is_placeholder :: "string \<Rightarrow> bool" where
  "is_placeholder value =
     (let lowered = lower value in list_ex (\<lambda>pattern. str_in pattern lowered) PLACEHOLDER_PATTERNS)"

text \<open>
  The two comprehensions of \<open>main\<close>: \<open>missing\<close> walks the required keys in the order
  given, \<open>placeholders\<close> walks the dictionary in insertion order. An empty string is
  false in a Python condition.
\<close>

definition missing_keys :: "string list \<Rightarrow> env_dict \<Rightarrow> string list" where
  "missing_keys require values =
     filter (\<lambda>key. case map_of values key of None \<Rightarrow> True | Some value \<Rightarrow> value = []) require"

definition placeholder_keys :: "env_dict \<Rightarrow> string list" where
  "placeholder_keys values =
     map fst (filter (\<lambda>(key, value). value \<noteq> [] \<and> is_placeholder value) values)"

text \<open>The four report blocks of \<open>main\<close>, each the lines printed by one \<open>if\<close>.\<close>

definition item_line :: "string \<Rightarrow> string" where
  "item_line key = ''  - '' @ key"

definition malformed_block :: "(nat \<times> string) list \<Rightarrow> string list" where
  "malformed_block malformed =
     (if malformed \<noteq> []
      then (CHR 0x0A # ''Malformed lines:'') #
           map (\<lambda>(line_no, line). ''  - line '' @ str_nat line_no @ '': '' @ line) malformed
      else [])"

definition duplicates_block :: "string list \<Rightarrow> string list" where
  "duplicates_block duplicates =
     (if duplicates \<noteq> []
      then (CHR 0x0A # ''Duplicate keys:'') #
           map item_line (sort (remdups duplicates))
      else [])"

definition missing_block :: "string list \<Rightarrow> string list" where
  "missing_block missing =
     (if missing \<noteq> []
      then (CHR 0x0A # ''Missing required keys:'') # map item_line missing
      else [])"

definition placeholders_block :: "string list \<Rightarrow> string list" where
  "placeholders_block placeholders =
     (if placeholders \<noteq> []
      then (CHR 0x0A # ''Potential placeholder values detected:'') #
           map item_line placeholders
      else [])"

text \<open>
  \<open>main\<close> of the validator. \<open>env_file\<close> is the path as printed, \<open>file\<close> is \<open>None\<close>
  when the path does not exist and otherwise the text read from it, \<open>require\<close> is
  the list of \<open>--require\<close> arguments. The result is the exit code and the strings
  printed, one per call of \<open>print\<close>.
\<close>

definition validate_main :: "string \<Rightarrow> string option \<Rightarrow> string list \<Rightarrow> py_error + nat \<times> string list" where
  "validate_main env_file file require =
     (case file of
        None \<Rightarrow> Inr (1, [''[ERROR] Env file not found: '' @ env_file])
      | Some text \<Rightarrow>
          (case parse_env text of
             Inl e \<Rightarrow> Inl e
           | Inr (values, duplicates, malformed) \<Rightarrow>
               let missing = missing_keys require values;
                   placeholders = placeholder_keys values;
                   out = [''Parsed keys: '' @ str_nat (length values)]
                         @ malformed_block malformed
                         @ duplicates_block duplicates
                         @ missing_block missing
                         @ placeholders_block placeholders;
                   has_errors = (malformed \<noteq> [] \<or> duplicates \<noteq> [] \<or> missing \<noteq> []
                                 \<or> placeholders \<noteq> [])
               in
                 if has_errors
                 then Inr (1, out @ [CHR 0x0A # ''[FAIL] Env validation failed.''])
                 else Inr (0, out @ [CHR 0x0A # ''[OK] Env validation passed.''])))"

section \<open>What the parser does to one line\<close>

text \<open>
  The key-name grammar in the words of the specification: a letter or an underscore,
  followed by zero or more letters, digits or underscores.
\<close>

definition key_grammar :: "string \<Rightarrow> bool" where
  "key_grammar key =
     (case key of [] \<Rightarrow> False | c # cs \<Rightarrow> key_start c \<and> list_all key_char cs)"

text \<open>
  A line is skipped when its trimmed form is empty or starts with \<open>#\<close>. A line that is
  not skipped is malformed when its trimmed form has no \<open>=\<close>, or when the trimmed text
  before the first \<open>=\<close> is not in the grammar. Every other line is well formed and
  carries an entry: the trimmed text before the first \<open>=\<close> and the trimmed text after it.
\<close>

definition line_skipped :: "string \<Rightarrow> bool" where
  "line_skipped raw_line = (strip raw_line = [] \<or> startswith ''#'' (strip raw_line))"

definition key_part :: "string \<Rightarrow> string" where
  "key_part raw_line = strip (takeWhile (\<lambda>c. c \<noteq> CHR ''='') (strip raw_line))"

definition value_part :: "string \<Rightarrow> string" where
  "value_part raw_line = strip (drop 1 (dropWhile (\<lambda>c. c \<noteq> CHR ''='') (strip raw_line)))"

definition line_malformed :: "string \<Rightarrow> bool" where
  "line_malformed raw_line =
     (\<not> line_skipped raw_line \<and>
      (CHR ''='' \<notin> set (strip raw_line) \<or> \<not> key_grammar (key_part raw_line)))"

definition line_entry :: "string \<Rightarrow> (string \<times> string) option" where
  "line_entry raw_line =
     (if line_skipped raw_line \<or> line_malformed raw_line then None
      else Some (key_part raw_line, value_part raw_line))"

definition entries :: "string list \<Rightarrow> (string \<times> string) list" where
  "entries lines = List.map_filter line_entry lines"

text \<open>The entries of the well-formed lines whose key is \<open>k\<close>, in file order.\<close>

definition occurrences :: "string \<Rightarrow> string list \<Rightarrow> (string \<times> string) list" where
  "occurrences k lines = filter (\<lambda>e. fst e = k) (entries lines)"

text \<open>The entries stored one after the other, and the duplicate notices they leave.\<close>

fun store_all :: "env_dict \<Rightarrow> (string \<times> string) list \<Rightarrow> env_dict" where
  "store_all values [] = values"
| "store_all values ((key, value) # es) = store_all (AList.update key value values) es"

fun dup_notices :: "env_dict \<Rightarrow> (string \<times> string) list \<Rightarrow> string list" where
  "dup_notices values [] = []"
| "dup_notices values ((key, value) # es) =
     (if map_of values key \<noteq> None then [key] else [])
     @ dup_notices (AList.update key value values) es"

section \<open>The rollout planner: \<open>plan_openclaw_rollout.py\<close>\<close>

definition PROVIDER_LINKS :: "(string \<times> string) list" where
  "PROVIDER_LINKS =
     [(''fly'', ''https://docs.openclaw.ai/install/fly''),
      (''render'', ''https://docs.openclaw.ai/install/render''),
      (''railway'', ''https://docs.openclaw.ai/install/railway''),
      (''hetzner'', ''https://docs.openclaw.ai/install/hetzner''),
      (''gcp'', ''https://docs.openclaw.ai/install/gcp'')]"

definition CHANNEL_LINKS :: "(string \<times> string) list" where
  "CHANNEL_LINKS =
     [(''telegram'', ''https://docs.openclaw.ai/channels/telegram''),
      (''discord'', ''https://docs.openclaw.ai/channels/discord''),
      (''slack'', ''https://docs.openclaw.ai/channels/slack'')]"

text \<open>
  \<open>parse_channels\<close>: the segments between commas that are not blank, trimmed and
  lower-cased; \<open>ValueError\<close> with all the unknown names when there is one.
\<close>

definition parse_channels :: "string \<Rightarrow> py_error + string list" where
  "parse_channels raw =
     (let channels = map (\<lambda>c. lower (strip c))
                        (filter (\<lambda>c. strip c \<noteq> []) (str_split (CHR '','') raw));
          invalid = filter (\<lambda>c. map_of CHANNEL_LINKS c = None) channels
      in if invalid \<noteq> []
         then Inl (ValueError (''Unsupported channels: '' @ join '', '' invalid))
         else Inr channels)"

text \<open>
  \<open>render\<close>. The timestamp \<open>now\<close> is an argument. \<open>head_lines\<close> is the list literal
  that \<open>lines\<close> starts as, \<open>channel_loop\<close> the \<open>for\<close> loop with its two appends,
  \<open>tail_lines\<close> the list given to \<open>lines.extend\<close>. A subscript on a dictionary
  raises \<open>KeyError\<close> for a key that is not there.
\<close>

definition head_lines :: "string \<Rightarrow> string \<Rightarrow> string \<Rightarrow> string \<Rightarrow> string list" where
  "head_lines now provider environment provider_url =
     [''# OpenClaw Rollout Plan'',
      [],
      ''- Generated: '' @ now,
      ''- Provider: '' @ provider,
      ''- Environment: '' @ environment,
      [],
      ''## 1. Preflight'',
      ''- [ ] Confirm deployment scope and rollback owner.'',
      ''- [ ] Validate `.env` with `scripts/validate_openclaw_env.py`.'',
      ''- [ ] Confirm secure secret storage in provider dashboard/CLI.'',
      [],
      ''## 2. Deployment'',
      ''- [ ] Follow official provider guide: '' @ provider_url,
      ''- [ ] Configure persistent state storage before first traffic.'',
      ''- [ ] Deploy and capture app URL + health checks.'',
      ''- [ ] Verify logs show healthy startup without secret leakage.'',
      [],
      ''## 3. Channels'']"

definition tail_lines :: "string list" where
  "tail_lines =
     [[],
      ''## 4. Agent + Memory'',
      ''- [ ] Confirm agent behavior constraints align with intended use.'',
      ''- [ ] Confirm memory persistence and restart behavior.'',
      [],
      ''## 5. Security'',
      ''- [ ] Apply references/openclaw-security-checklist.md and mark pass/fail.'',
      ''- [ ] Verify gateway protection and token rotation plan.'',
      [],
      ''## 6. Handover'',
      ''- [ ] Record deployment details, risks, and follow-ups.'',
      ''- [ ] Share operator runbook and escalation path.'',
      []]"

definition configure_line :: "string \<Rightarrow> string \<Rightarrow> string" where
  "configure_line channel url = ''- [ ] Configure '' @ channel @ '': '' @ url"

definition smoke_line :: "string \<Rightarrow> string" where
  "smoke_line channel =
     ''- [ ] Send '' @ channel @ '' smoke-test message and verify response path.''"

definition no_channels_line :: "string" where
  "no_channels_line = ''- [ ] No channels selected for this rollout.''"

fun channel_loop :: "string list \<Rightarrow> string list \<Rightarrow> py_error + string list" where
  "channel_loop lines [] = Inr lines"
| "channel_loop lines (channel # rest) =
     (case map_of CHANNEL_LINKS channel of
        None \<Rightarrow> Inl (KeyError channel)
      | Some url \<Rightarrow>
          channel_loop (lines @ [configure_line channel url, smoke_line channel]) rest)"

text \<open>The list \<open>lines\<close> as \<open>render\<close> has it when it returns.\<close>

definition render_lines ::
  "string \<Rightarrow> string \<Rightarrow> string list \<Rightarrow> string \<Rightarrow> py_error + string list" where
  "render_lines now provider channels environment =
     (case map_of PROVIDER_LINKS provider of
        None \<Rightarrow> Inl (KeyError provider)
      | Some provider_url \<Rightarrow>
          (case (if channels \<noteq> []
                 then channel_loop (head_lines now provider environment provider_url) channels
                 else Inr (head_lines now provider environment provider_url @ [no_channels_line]))
           of
             Inl e \<Rightarrow> Inl e
           | Inr lines \<Rightarrow> Inr (lines @ tail_lines)))"

definition render :: "string \<Rightarrow> string \<Rightarrow> string list \<Rightarrow> string \<Rightarrow> py_error + string" where
  "render now provider channels environment =
     (case render_lines now provider channels environment of
        Inl e \<Rightarrow> Inl e
      | Inr lines \<Rightarrow> Inr (join [CHR 0x0A] lines))"

text \<open>
  \<open>str(Path(p))\<close> as a POSIX system gives it: the root is \<open>//\<close> for exactly two
  leading slashes and \<open>/\<close> for one or for three and more; the components between
  slashes that are empty or \<open>.\<close> are dropped; the rest is joined by single slashes; a
  path with nothing left is \<open>.\<close>.
\<close>

definition posix_path_str :: "string \<Rightarrow> string" where
  "posix_path_str p =
     (let root = (if take 1 p \<noteq> ''/'' then []
                  else if take 2 p = ''//'' \<and> take 3 p \<noteq> ''///'' then ''//''
                  else ''/'');
          rel = dropWhile (\<lambda>c. c = CHR ''/'') p;
          parts = filter (\<lambda>x. x \<noteq> [] \<and> x \<noteq> ''.'') (str_split (CHR ''/'') rel);
          s = root @ join ''/'' parts
      in if s = [] then ''.'' else s)"

text \<open>
  \<open>main\<close> of the planner, on the four argument strings (\<open>--channels\<close> is empty and
  \<open>--environment\<close> is \<open>prod\<close> when not given). \<open>argparse\<close> ends the run with exit
  code 2, nothing on standard output, when \<open>--provider\<close> is not one of its choices.
  What the platform does with the path \<open>output = Path(args.output)\<close> comes in as three
  arguments, each a function of the \<open>--output\<close> string: \<open>path_str\<close> is \<open>str(output)\<close>,
  \<open>mkdir_parent\<close> is the exception that \<open>output.parent.mkdir(parents=True,
  exist_ok=True)\<close> raises, if any, and \<open>write_text\<close> the exception that
  \<open>output.write_text(content)\<close> raises, if any. Neither call is inside the \<open>try\<close>, so
  such an exception leaves \<open>main\<close>. The result is the exit code, the strings printed,
  and the file written, if any, as its path and content.
\<close>

definition plan_main ::
  "(string \<Rightarrow> string) \<Rightarrow> (string \<Rightarrow> py_error option) \<Rightarrow> (string \<Rightarrow> string \<Rightarrow> py_error option)
     \<Rightarrow> string \<Rightarrow> string \<Rightarrow> string \<Rightarrow> string \<Rightarrow> string
     \<Rightarrow> py_error + nat \<times> string list \<times> (string \<times> string) option" where
  "plan_main path_str mkdir_parent write_text
       now provider_arg channels_arg environment_arg output_arg =
     (if provider_arg \<notin> set (sort (map fst PROVIDER_LINKS)) then Inr (2, [], None)
      else
        (case (if channels_arg \<noteq> [] then parse_channels channels_arg else Inr []) of
           Inl (ValueError msg) \<Rightarrow> Inr (1, [''[ERROR] '' @ msg], None)
         | Inl e \<Rightarrow> Inl e
         | Inr channels \<Rightarrow>
             (case render now provider_arg channels environment_arg of
                Inl e \<Rightarrow> Inl e
              | Inr content \<Rightarrow>
                  (case mkdir_parent output_arg of
                     Some e \<Rightarrow> Inl e
                   | None \<Rightarrow>
                       (case write_text output_arg content of
                          Some e \<Rightarrow> Inl e
                        | None \<Rightarrow>
                            Inr (0, [''[OK] Wrote rollout plan: '' @ path_str output_arg],
                                 Some (path_str output_arg, content)))))))"

text \<open>
  The lines of a document: its pieces between line feeds, the inverse of the
  \<open>"\n".join(lines)\<close> that \<open>render\<close> ends with when no line holds a line feed.
\<close>

definition document_lines :: "string \<Rightarrow> string list" where
  "document_lines doc = str_split (CHR 0x0A) doc"

text \<open>
  The lines of the section under a heading: those after the first line equal to the
  heading, up to the next empty line.
\<close>

definition section_lines :: "string \<Rightarrow> string list \<Rightarrow> string list" where
  "section_lines heading lines =
     takeWhile (\<lambda>l. l \<noteq> []) (drop 1 (dropWhile (\<lambda>l. l \<noteq> heading) lines))"

text \<open>The checklist lines of a list of channels: a configure line and a smoke-test line each.\<close>

definition channel_items :: "string list \<Rightarrow> string list" where
  "channel_items channels =
     concat (map (\<lambda>c. [configure_line c (the (map_of CHANNEL_LINKS c)), smoke_line c]) channels)"

section \<open>Facts about the string functions\<close>

lemma str_in_single: "str_in [c] s \<longleftrightarrow> c \<in> set s"
  by (induction s) (auto simp: startswith_def)

lemma str_split1_acc_eq:
  "str_split1_acc sep acc s =
     (if sep \<in> set s
      then [rev acc @ takeWhile (\<lambda>c. c \<noteq> sep) s, drop 1 (dropWhile (\<lambda>c. c \<noteq> sep) s)]
      else [rev acc @ s])"
  by (induction s arbitrary: acc) auto

lemma str_split1_eq:
  "str_split1 sep s =
     (if sep \<in> set s
      then [takeWhile (\<lambda>c. c \<noteq> sep) s, drop 1 (dropWhile (\<lambda>c. c \<noteq> sep) s)]
      else [s])"
  by (simp add: str_split1_def str_split1_acc_eq)

lemma strip_last: "strip s \<noteq> [] \<Longrightarrow> \<not> is_space (last (strip s))"
  unfolding strip_def
  by (metis (no_types) hd_dropWhile hd_rev rev_is_Nil_conv rev_rev_ident)

lemma rev_dropWhile_rev_hd:
  "rev (dropWhile P (rev t)) \<noteq> [] \<Longrightarrow> hd (rev (dropWhile P (rev t))) = hd t"
proof -
  assume ne: "rev (dropWhile P (rev t)) \<noteq> []"
  have "rev t = takeWhile P (rev t) @ dropWhile P (rev t)" by simp
  then have "t = rev (dropWhile P (rev t)) @ rev (takeWhile P (rev t))"
    by (metis rev_append rev_rev_ident)
  with ne show ?thesis by (metis hd_append2)
qed

lemma strip_hd: "strip s \<noteq> [] \<Longrightarrow> \<not> is_space (hd (strip s))"
proof -
  assume ne: "strip s \<noteq> []"
  then have "hd (strip s) = hd (dropWhile is_space s)"
    unfolding strip_def by (rule rev_dropWhile_rev_hd)
  moreover have "dropWhile is_space s \<noteq> []"
  proof
    assume a: "dropWhile is_space s = []"
    have "strip s = []" by (simp only: strip_def a rev.simps dropWhile.simps)
    with ne show False by simp
  qed
  ultimately show ?thesis by (simp add: hd_dropWhile)
qed

lemma strip_fixed:
  assumes "s = [] \<or> (\<not> is_space (hd s) \<and> \<not> is_space (last s))"
  shows "strip s = s"
proof (cases "s = []")
  case True
  then show ?thesis by (simp add: strip_def)
next
  case False
  with assms have h: "\<not> is_space (hd s)" and l: "\<not> is_space (last s)" by auto
  from h False have "dropWhile is_space s = s" by (simp add: dropWhile_eq_self_iff)
  moreover from l False have "dropWhile is_space (rev s) = rev s"
    by (simp add: dropWhile_eq_self_iff hd_rev)
  ultimately show ?thesis by (simp add: strip_def)
qed

lemma strip_idem: "strip (strip s) = strip s"
  by (rule strip_fixed) (use strip_hd strip_last in blast)

lemma KEY_RE_match_strip: "KEY_RE_match (strip s) = key_grammar (strip s)"
proof (cases "strip s")
  case Nil
  then show ?thesis by (simp add: KEY_RE_match_def key_grammar_def)
next
  case (Cons c cs)
  have "dropWhile key_char cs \<noteq> [CHR 0x0A]"
  proof
    assume a: "dropWhile key_char cs = [CHR 0x0A]"
    have "cs = takeWhile key_char cs @ dropWhile key_char cs" by simp
    with a have "cs = takeWhile key_char cs @ [CHR 0x0A]" by simp
    then have "last (strip s) = CHR 0x0A"
      using Cons by (metis last_ConsR last_snoc snoc_eq_iff_butlast)
    moreover have "\<not> is_space (last (strip s))"
      using Cons by (intro strip_last) simp
    ultimately show False by (simp add: is_space_def whitespace_chars_def)
  qed
  then show ?thesis
    using Cons by (simp add: KEY_RE_match_def key_grammar_def list_all_iff)
qed

section \<open>The parser, line by line\<close>

text \<open>The unpacking never raises: the guard before it has seen the \<open>=\<close>.\<close>

lemma parse_line_eq:
  "parse_line idx raw (vs, ds, ms) =
     Inr (case line_entry raw of
            Some (k, v) \<Rightarrow>
              (AList.update k v vs, (if map_of vs k \<noteq> None then ds @ [k] else ds), ms)
          | None \<Rightarrow> (vs, ds, (if line_malformed raw then ms @ [(idx, raw)] else ms)))"
  by (simp add: parse_line_def line_entry_def line_malformed_def line_skipped_def
      key_part_def value_part_def str_in_single str_split1_eq KEY_RE_match_strip Let_def)

lemma parse_loop_run:
  "parse_loop ils (vs, ds, ms) =
     Inr (store_all vs (entries (map snd ils)),
          ds @ dup_notices vs (entries (map snd ils)),
          ms @ filter (\<lambda>(idx, raw). line_malformed raw) ils)"
proof (induction ils arbitrary: vs ds ms)
  case Nil
  then show ?case by (simp add: entries_def)
next
  case (Cons il ils)
  obtain idx raw where il: "il = (idx, raw)" by (cases il)
  show ?case
  proof (cases "line_entry raw")
    case None
    then show ?thesis
      using Cons.IH il by (simp add: parse_line_eq entries_def line_entry_def split: if_splits)
  next
    case (Some e)
    obtain k v where e: "e = (k, v)" by (cases e)
    have nm: "\<not> line_malformed raw"
      using Some by (auto simp: line_entry_def split: if_splits)
    show ?thesis
      using Cons.IH il Some e nm by (simp add: parse_line_eq entries_def)
  qed
qed

lemma parse_env_run:
  "parse_env text =
     Inr (store_all [] (entries (splitlines text)),
          dup_notices [] (entries (splitlines text)),
          filter (\<lambda>(idx, raw). line_malformed raw) (enumerate 1 (splitlines text)))"
  by (simp add: parse_env_def parse_loop_run)

lemma map_of_store_all: "map_of (store_all vs es) = map_of vs ++ map_of (rev es)"
  by (induction vs es rule: store_all.induct) (auto simp: update_conv' map_add_def fun_eq_iff split: option.splits)

lemma dom_store_all: "dom (map_of (store_all vs es)) = dom (map_of vs) \<union> fst ` set es"
  by (auto simp: map_of_store_all dom_map_of_conv_image_fst)

lemma distinct_store_all: "distinct (map fst vs) \<Longrightarrow> distinct (map fst (store_all vs es))"
  by (induction vs es rule: store_all.induct) (auto simp: distinct_update)

lemma set_dup_notices: "set (dup_notices vs es) \<subseteq> fst ` set es"
  by (induction vs es rule: dup_notices.induct) auto

lemma count_dup_notices:
  "count_list (dup_notices vs es) k =
     (if map_of vs k \<noteq> None then length (filter (\<lambda>e. fst e = k) es)
      else length (filter (\<lambda>e. fst e = k) es) - 1)"
  by (induction vs es rule: dup_notices.induct) (auto simp: update_conv')

lemma map_of_rev_last:
  "filter (\<lambda>e. fst e = k) es \<noteq> [] \<Longrightarrow>
     map_of (rev es) k = Some (snd (last (filter (\<lambda>e. fst e = k) es)))"
  by (induction es rule: rev_induct) auto

lemma map_of_rev_none:
  "filter (\<lambda>e. fst e = k) es = [] \<Longrightarrow> map_of (rev es) k = None"
  by (induction es rule: rev_induct) (auto split: if_splits)

lemma count_list_distinct: "distinct xs \<Longrightarrow> x \<in> set xs \<Longrightarrow> count_list xs x = 1"
  by (induction xs) auto

lemma header_not_item [simp]: "CHR 0x0A # s \<noteq> item_line k"
  by (simp add: item_line_def)

lemma count_list_item_lines:
  "count_list (map item_line ks) (item_line k) = count_list ks k"
  by (induction ks) (auto simp: item_line_def)


lemma takeWhile_key: "c \<notin> set k \<Longrightarrow> takeWhile (\<lambda>x. x \<noteq> c) (k @ c # v) = k"
  by (induction k) auto

lemma dropWhile_value: "c \<notin> set k \<Longrightarrow> dropWhile (\<lambda>x. x \<noteq> c) (k @ c # v) = c # v"
  by (induction k) auto

lemma strip_keeps_hd:
  assumes "strip k \<noteq> []" and "k \<noteq> []" and "\<not> is_space (hd k)"
  shows "hd (strip k) = hd k"
proof -
  have "hd (strip k) = hd (dropWhile is_space k)"
    using assms(1) unfolding strip_def by (rule rev_dropWhile_rev_hd)
  moreover have "dropWhile is_space k = k"
    using assms(2,3) by (simp add: dropWhile_eq_self_iff)
  ultimately show ?thesis by simp
qed

lemma line_entry_well_formed:
  assumes line: "strip raw_line = k @ CHR ''='' # v"
    and first: "CHR ''='' \<notin> set k"
    and key: "key_grammar (strip k)"
  shows "line_entry raw_line = Some (strip k, strip v)"
    and "\<not> line_malformed raw_line"
proof -
  have kp: "key_part raw_line = strip k"
    using first by (simp add: key_part_def line takeWhile_key)
  have vp: "value_part raw_line = strip v"
    using first by (simp add: value_part_def line dropWhile_value)
  have ne: "strip k \<noteq> []"
    using key by (auto simp: key_grammar_def)
  have "\<not> startswith ''#'' (strip raw_line)"
  proof
    assume "startswith ''#'' (strip raw_line)"
    then have h: "hd (k @ CHR ''='' # v) = CHR ''#''"
      by (simp add: startswith_def line) (cases k; simp)
    have kne: "k \<noteq> []" using h by (cases k) auto
    with h have hk: "hd k = CHR ''#''" by simp
    then have "\<not> is_space (hd k)" by (simp add: is_space_def whitespace_chars_def)
    with ne kne have "hd (strip k) = CHR ''#''" using hk by (simp add: strip_keeps_hd)
    with ne have "\<not> key_grammar (strip k)"
      by (cases "strip k") (auto simp: key_grammar_def key_start_def ascii_letter_def)
    with key show False by simp
  qed
  then have ns: "\<not> line_skipped raw_line"
    by (simp add: line_skipped_def line)
  show nm: "\<not> line_malformed raw_line"
    using key by (simp add: line_malformed_def kp line)
  show "line_entry raw_line = Some (strip k, strip v)"
    using ns nm by (simp add: line_entry_def kp vp)
qed

lemma entries_append: "entries (xs @ ys) = entries xs @ entries ys"
  by (simp add: entries_def map_filter_def)

lemma entries_Cons:
  "entries (x # xs) = (case line_entry x of None \<Rightarrow> entries xs | Some e \<Rightarrow> e # entries xs)"
  by (simp add: entries_def split: option.splits)

lemma last_entry_stored:
  assumes lines: "splitlines text = before @ raw_line # after"
    and entry: "line_entry raw_line = Some (key, value)"
    and later: "key \<notin> fst ` set (entries after)"
  shows "map_of (store_all [] (entries (splitlines text))) key = Some value"
proof -
  have "map_of (rev (entries after)) key = None"
    using later by (simp add: map_of_eq_None_iff)
  then show ?thesis
    by (simp add: lines entries_append entries_Cons entry map_of_store_all map_add_def)
qed

lemma enumerate_nth_line:
  assumes "splitlines text = before @ raw_line # after"
  shows "(Suc (length before), raw_line) \<in> set (enumerate 1 (splitlines text))"
  by (simp add: assms in_set_enumerate_eq nth_append)

lemma placeholder_keys_iff:
  "k \<in> set (placeholder_keys vs) \<longleftrightarrow>
     (\<exists>v. (k, v) \<in> set vs \<and> v \<noteq> [] \<and> is_placeholder v)"
  by (auto simp: placeholder_keys_def image_iff)

lemma missing_keys_iff:
  "k \<in> set (missing_keys require vs) \<longleftrightarrow>
     k \<in> set require \<and> (map_of vs k = None \<or> map_of vs k = Some [])"
  by (auto simp: missing_keys_def split: option.splits)

lemma distinct_parsed_keys: "distinct (map fst (store_all [] es))"
  by (rule distinct_store_all) simp

lemma empty_value_not_placeholder:
  assumes "distinct (map fst vs)" and "map_of vs k = Some []"
  shows "k \<notin> set (placeholder_keys vs)"
proof
  assume "k \<in> set (placeholder_keys vs)"
  then obtain v where v: "(k, v) \<in> set vs" "v \<noteq> []"
    by (auto simp: placeholder_keys_iff)
  with assms(1) have "map_of vs k = Some v" by simp
  with assms(2) v(2) show False by simp
qed

lemma startswith_iff: "startswith p s \<longleftrightarrow> (\<exists>ys. s = p @ ys)"
proof
  assume "startswith p s"
  then have "s = p @ drop (length p) s"
    unfolding startswith_def by (metis append_take_drop_id)
  then show "\<exists>ys. s = p @ ys" ..
next
  assume "\<exists>ys. s = p @ ys"
  then show "startswith p s" by (auto simp: startswith_def)
qed

lemma str_in_iff: "str_in sub s \<longleftrightarrow> (\<exists>xs ys. s = xs @ sub @ ys)"
proof (induction s)
  case Nil
  then show ?case by auto
next
  case (Cons c cs)
  have "(\<exists>xs ys. c # cs = xs @ sub @ ys) \<longleftrightarrow>
        (\<exists>ys. c # cs = sub @ ys) \<or> (\<exists>xs ys. cs = xs @ sub @ ys)"
  proof
    assume "\<exists>xs ys. c # cs = xs @ sub @ ys"
    then obtain xs ys where e: "c # cs = xs @ sub @ ys" by blast
    show "(\<exists>ys. c # cs = sub @ ys) \<or> (\<exists>xs ys. cs = xs @ sub @ ys)"
    proof (cases xs)
      case Nil
      with e show ?thesis by auto
    next
      case (Cons x xs')
      with e have "cs = xs' @ sub @ ys" by simp
      then show ?thesis by blast
    qed
  next
    assume "(\<exists>ys. c # cs = sub @ ys) \<or> (\<exists>xs ys. cs = xs @ sub @ ys)"
    then show "\<exists>xs ys. c # cs = xs @ sub @ ys"
    proof
      assume "\<exists>ys. c # cs = sub @ ys"
      then obtain ys where "c # cs = [] @ sub @ ys" by auto
      then show ?thesis by blast
    next
      assume "\<exists>xs ys. cs = xs @ sub @ ys"
      then obtain xs ys where "c # cs = (c # xs) @ sub @ ys" by auto
      then show ?thesis by blast
    qed
  qed
  with Cons show ?case by (simp add: startswith_iff)
qed

lemma heading_in_malformed_block:
  "CHR 0x0A # h \<in> set (malformed_block ms) \<longleftrightarrow> ms \<noteq> [] \<and> h = ''Malformed lines:''"
  by (auto simp: malformed_block_def)

lemma heading_in_duplicates_block:
  "CHR 0x0A # h \<in> set (duplicates_block ds) \<longleftrightarrow> ds \<noteq> [] \<and> h = ''Duplicate keys:''"
  by (auto simp: duplicates_block_def)

lemma heading_in_missing_block:
  "CHR 0x0A # h \<in> set (missing_block ks) \<longleftrightarrow> ks \<noteq> [] \<and> h = ''Missing required keys:''"
  by (auto simp: missing_block_def)

lemma heading_in_placeholders_block:
  "CHR 0x0A # h \<in> set (placeholders_block ks) \<longleftrightarrow>
     ks \<noteq> [] \<and> h = ''Potential placeholder values detected:''"
  by (auto simp: placeholders_block_def)

lemmas heading_in_block =
  heading_in_malformed_block heading_in_duplicates_block heading_in_missing_block
  heading_in_placeholders_block

lemma validate_main_run:
  "validate_main env_file (Some text) require =
     (let vs = store_all [] (entries (splitlines text));
          ds = dup_notices [] (entries (splitlines text));
          ms = filter (\<lambda>(idx, raw). line_malformed raw) (enumerate 1 (splitlines text));
          out = [''Parsed keys: '' @ str_nat (length vs)] @ malformed_block ms
                @ duplicates_block ds @ missing_block (missing_keys require vs)
                @ placeholders_block (placeholder_keys vs)
      in if ms \<noteq> [] \<or> ds \<noteq> [] \<or> missing_keys require vs \<noteq> [] \<or> placeholder_keys vs \<noteq> []
         then Inr (1, out @ [CHR 0x0A # ''[FAIL] Env validation failed.''])
         else Inr (0, out @ [CHR 0x0A # ''[OK] Env validation passed.'']))"
  by (simp add: validate_main_def parse_env_run Let_def)

section \<open>Claims about the env validator\<close>

text \<open>
  Claim C9. For every env file content, \<open>parse_env\<close> returns, and every key name in the
  duplicates list it returns is a key of the mapping it returns.
\<close>

theorem duplicates_subset_of_keys:
  "\<exists>values duplicates malformed.
     parse_env text = Inr (values, duplicates, malformed) \<and>
     set duplicates \<subseteq> fst ` set values"
proof -
  let ?es = "entries (splitlines text)"
  have "set (dup_notices [] ?es) \<subseteq> fst ` set ?es" by (rule set_dup_notices)
  also have "\<dots> = dom (map_of (store_all [] ?es))" by (simp add: dom_store_all)
  also have "\<dots> = fst ` set (store_all [] ?es)" by (rule dom_map_of_conv_image_fst)
  finally show ?thesis by (simp add: parse_env_run)
qed

theorem duplicates_subset_of_keys_witness:
  "parse_env (''A=1'' @ [CHR 0x0A] @ ''A=2'' @ [CHR 0x0A]) = Inr ([(''A'', ''2'')], [''A''], []) \<and>
   set [''A''] \<subseteq> fst ` set [(''A'', ''2'')]"
proof -
  have e: "parse_env (''A=1'' @ [CHR 0x0A] @ ''A=2'' @ [CHR 0x0A]) = Inr ([(''A'', ''2'')], [''A''], [])"
    by code_simp
  show ?thesis
    using duplicates_subset_of_keys [of "''A=1'' @ [CHR 0x0A] @ ''A=2'' @ [CHR 0x0A]"]
    unfolding e by simp
qed

text \<open>
  Claim C2. When a key appears on \<open>N \<ge> 2\<close> well-formed lines of the file, \<open>parse_env\<close>
  returns a mapping that binds the key to the value of its last occurrence and a
  duplicates list that holds the key \<open>N - 1\<close> times; the duplicate-key block that
  \<open>main\<close> prints is the heading followed by one line per distinct duplicated key,
  in sorted order, so the line of this key is printed exactly once.
\<close>

theorem last_write_wins:
  assumes "2 \<le> length (occurrences k (splitlines text))"
  shows "\<exists>values duplicates malformed report.
           parse_env text = Inr (values, duplicates, malformed) \<and>
           map_of values k = Some (snd (last (occurrences k (splitlines text)))) \<and>
           count_list duplicates k = length (occurrences k (splitlines text)) - 1 \<and>
           duplicates_block duplicates =
             (CHR 0x0A # ''Duplicate keys:'') # map item_line report \<and>
           sorted report \<and> distinct report \<and> set report = set duplicates \<and>
           count_list (duplicates_block duplicates) (item_line k) = 1"
proof -
  let ?es = "entries (splitlines text)"
  let ?occ = "occurrences k (splitlines text)"
  let ?ds = "dup_notices [] ?es"
  let ?report = "sort (remdups ?ds)"
  from assms have ne: "filter (\<lambda>e. fst e = k) ?es \<noteq> []"
    by (auto simp: occurrences_def)
  have m: "map_of (store_all [] ?es) k = Some (snd (last ?occ))"
    using map_of_rev_last [OF ne] by (simp add: map_of_store_all occurrences_def)
  have c: "count_list ?ds k = length ?occ - 1"
    by (simp add: count_dup_notices occurrences_def)
  with assms have "count_list ?ds k \<noteq> 0" by simp
  then have kin: "k \<in> set ?ds" by (simp add: count_list_0_iff)
  then have dne: "?ds \<noteq> []" by auto
  have d: "distinct ?report" by simp
  have "k \<in> set ?report" using kin by simp
  with d have c1: "count_list ?report k = 1" by (rule count_list_distinct)
  have b: "duplicates_block ?ds = (CHR 0x0A # ''Duplicate keys:'') # map item_line ?report"
    using dne by (simp add: duplicates_block_def)
  have c2: "count_list (duplicates_block ?ds) (item_line k) = 1"
    unfolding b using c1 by (simp add: count_list_item_lines)
  have s: "sorted ?report" by simp
  have st: "set ?report = set ?ds" by simp
  have pe: "parse_env text =
      Inr (store_all [] ?es, ?ds,
           filter (\<lambda>(idx, raw). line_malformed raw) (enumerate 1 (splitlines text)))"
    by (rule parse_env_run)
  show ?thesis
    by (intro exI conjI) (rule pe m c b s d st c2)+
qed

theorem last_write_wins_witness:
  "2 \<le> length (occurrences ''A'' (splitlines (''A=1'' @ [CHR 0x0A] @ ''A=2'' @ [CHR 0x0A]))) \<and>
   (\<exists>values duplicates.
      parse_env (''A=1'' @ [CHR 0x0A] @ ''A=2'' @ [CHR 0x0A]) = Inr (values, duplicates, []) \<and>
      map_of values ''A'' = Some ''2'' \<and> count_list duplicates ''A'' = 1 \<and>
      count_list (duplicates_block duplicates) ''  - A'' = 1)"
proof -
  let ?text = "''A=1'' @ [CHR 0x0A] @ ''A=2'' @ [CHR 0x0A]"
  have o: "occurrences ''A'' (splitlines ?text) = [(''A'', ''1''), (''A'', ''2'')]"
    by code_simp
  have e: "parse_env ?text = Inr ([(''A'', ''2'')], [''A''], [])"
    by code_simp
  have h: "2 \<le> length (occurrences ''A'' (splitlines ?text))"
    unfolding o by simp
  show ?thesis
    using h last_write_wins [OF h] unfolding e o by (auto simp: item_line_def)
qed

text \<open>
  Claim C3. \<open>parse_env\<close> returns, and its malformed list is, in file order, exactly
  the pairs of 1-based line number and untrimmed text of the lines that are malformed
  in the words of the specification, whatever the lines before them were. For a line
  that is neither blank nor a comment after trimming, being recorded is the same as
  having no \<open>=\<close> in the trimmed line or a trimmed text before the first \<open>=\<close> that is
  not in the key grammar.
\<close>

theorem malformed_lines:
  "\<exists>values duplicates malformed.
     parse_env text = Inr (values, duplicates, malformed) \<and>
     malformed =
       filter (\<lambda>(idx, raw_line). line_malformed raw_line) (enumerate 1 (splitlines text)) \<and>
     (\<forall>i < length (splitlines text).
        let raw_line = splitlines text ! i; line = strip raw_line in
        line \<noteq> [] \<and> \<not> startswith ''#'' line \<longrightarrow>
          ((Suc i, raw_line) \<in> set malformed \<longleftrightarrow>
             (CHR ''='' \<notin> set line \<or>
              \<not> key_grammar (strip (takeWhile (\<lambda>c. c \<noteq> CHR ''='') line)))))"
proof -
  let ?ls = "splitlines text"
  let ?ms = "filter (\<lambda>(idx, raw_line). line_malformed raw_line) (enumerate 1 ?ls)"
  have mal: "(Suc i, ?ls ! i) \<in> set ?ms \<longleftrightarrow> line_malformed (?ls ! i)"
    if "i < length ?ls" for i
    using that by (auto simp: in_set_enumerate_eq)
  have "\<forall>i < length ?ls.
        let raw_line = ?ls ! i; line = strip raw_line in
        line \<noteq> [] \<and> \<not> startswith ''#'' line \<longrightarrow>
          ((Suc i, raw_line) \<in> set ?ms \<longleftrightarrow>
             (CHR ''='' \<notin> set line \<or>
              \<not> key_grammar (strip (takeWhile (\<lambda>c. c \<noteq> CHR ''='') line))))"
  proof (intro allI impI)
    fix i assume "i < length ?ls"
    from mal [OF this]
    show "let raw_line = ?ls ! i; line = strip raw_line in
        line \<noteq> [] \<and> \<not> startswith ''#'' line \<longrightarrow>
          ((Suc i, raw_line) \<in> set ?ms \<longleftrightarrow>
             (CHR ''='' \<notin> set line \<or>
              \<not> key_grammar (strip (takeWhile (\<lambda>c. c \<noteq> CHR ''='') line))))"
      unfolding Let_def line_malformed_def line_skipped_def key_part_def by blast
  qed
  moreover have "parse_env text = Inr (store_all [] (entries ?ls), dup_notices [] (entries ?ls), ?ms)"
    by (rule parse_env_run)
  ultimately show ?thesis by blast
qed

theorem malformed_lines_witness:
  "parse_env '' not a valid line at all\<newline>A=1\<newline>1BAD=x''
     = Inr ([(''A'', ''1'')], [], [(1, '' not a valid line at all''), (3, ''1BAD=x'')]) \<and>
   splitlines '' not a valid line at all\<newline>A=1\<newline>1BAD=x'' ! 2
     = ''1BAD=x'' \<and>
   strip ''1BAD=x'' \<noteq> [] \<and> \<not> startswith ''#'' (strip ''1BAD=x'') \<and>
   (Suc 2, ''1BAD=x'') \<in> set [(1, '' not a valid line at all''), (3, ''1BAD=x'')] \<and>
   \<not> key_grammar (strip (takeWhile (\<lambda>c. c \<noteq> CHR ''='') (strip ''1BAD=x'')))"
proof -
  let ?text = "'' not a valid line at all\<newline>A=1\<newline>1BAD=x''"
  have e: "parse_env ?text
     = Inr ([(''A'', ''1'')], [], [(1, '' not a valid line at all''), (3, ''1BAD=x'')])"
    by code_simp
  have l: "splitlines ?text = ['' not a valid line at all'', ''A=1'', ''1BAD=x'']"
    by code_simp
  have s: "strip ''1BAD=x'' = ''1BAD=x''"
    by code_simp
  have n: "\<not> startswith ''#'' ''1BAD=x''"
    by code_simp
  have c: "CHR ''='' \<in> set ''1BAD=x''" by simp
  from malformed_lines [of ?text] obtain vs ds ms
    where pe: "parse_env ?text = Inr (vs, ds, ms)"
      and ev: "\<forall>i < length (splitlines ?text).
        let raw_line = splitlines ?text ! i; line = strip raw_line in
        line \<noteq> [] \<and> \<not> startswith ''#'' line \<longrightarrow>
          ((Suc i, raw_line) \<in> set ms \<longleftrightarrow>
             (CHR ''='' \<notin> set line \<or>
              \<not> key_grammar (strip (takeWhile (\<lambda>c. c \<noteq> CHR ''='') line))))"
    by blast
  from pe have m: "ms = [(1, '' not a valid line at all''), (3, ''1BAD=x'')]"
    unfolding e by simp
  have "2 < length (splitlines ?text)" unfolding l by simp
  with ev have "let raw_line = splitlines ?text ! 2; line = strip raw_line in
        line \<noteq> [] \<and> \<not> startswith ''#'' line \<longrightarrow>
          ((Suc 2, raw_line) \<in> set ms \<longleftrightarrow>
             (CHR ''='' \<notin> set line \<or>
              \<not> key_grammar (strip (takeWhile (\<lambda>c. c \<noteq> CHR ''='') line))))"
    by blast
  then have "\<not> key_grammar (strip (takeWhile (\<lambda>c. c \<noteq> CHR ''='') (strip ''1BAD=x'')))"
    using n c unfolding l m by (simp add: s Let_def)
  then show ?thesis
    using n by (simp add: e l s)
qed

text \<open>
  Claim C8. On a well-formed line, whose trimmed form is \<open>k\<close>, the first \<open>=\<close>, and
  \<open>v\<close>, with the trimmed \<open>k\<close> in the key grammar, the loop body stores the trimmed
  \<open>k\<close> with the trimmed \<open>v\<close>: the cut is at the first \<open>=\<close> only, so \<open>v\<close> may hold
  further \<open>=\<close> characters, and neither stored string has whitespace at either end.
  In a file where no later line sets the same key, \<open>parse_env\<close> returns a mapping
  with that binding and does not record the line as malformed.
\<close>

theorem split_on_first_equals:
  assumes "strip raw_line = k @ CHR ''='' # v"
    and "CHR ''='' \<notin> set k"
    and "key_grammar (strip k)"
  shows "parse_line idx raw_line (values, duplicates, malformed) =
           Inr (AList.update (strip k) (strip v) values,
                (if map_of values (strip k) \<noteq> None then duplicates @ [strip k] else duplicates),
                malformed) \<and>
         \<not> is_space (hd (strip k)) \<and> \<not> is_space (last (strip k)) \<and>
         (strip v = [] \<or> (\<not> is_space (hd (strip v)) \<and> \<not> is_space (last (strip v)))) \<and>
         (\<forall>text before after.
            splitlines text = before @ raw_line # after \<and>
            strip k \<notin> fst ` set (entries after) \<longrightarrow>
            (\<exists>values' duplicates' malformed'.
               parse_env text = Inr (values', duplicates', malformed') \<and>
               map_of values' (strip k) = Some (strip v) \<and>
               (Suc (length before), raw_line) \<notin> set malformed'))"
proof -
  note wf = line_entry_well_formed [OF assms]
  have ne: "strip k \<noteq> []"
    using assms(3) by (auto simp: key_grammar_def)
  have 1: "parse_line idx raw_line (values, duplicates, malformed) =
           Inr (AList.update (strip k) (strip v) values,
                (if map_of values (strip k) \<noteq> None then duplicates @ [strip k] else duplicates),
                malformed)"
    by (simp add: parse_line_eq wf)
  have 2: "\<not> is_space (hd (strip k))" "\<not> is_space (last (strip k))"
    using ne by (simp_all add: strip_hd strip_last)
  have 3: "strip v = [] \<or> (\<not> is_space (hd (strip v)) \<and> \<not> is_space (last (strip v)))"
    using strip_hd strip_last by blast
  have 4: "\<exists>values' duplicates' malformed'.
               parse_env content = Inr (values', duplicates', malformed') \<and>
               map_of values' (strip k) = Some (strip v) \<and>
               (Suc (length before), raw_line) \<notin> set malformed'"
    if "splitlines content = before @ raw_line # after"
      and "strip k \<notin> fst ` set (entries after)" for content before after
    using last_entry_stored [OF that(1) wf(1) that(2)] wf(2)
    by (simp add: parse_env_run)
  from 1 2 3 4 show ?thesis by blast
qed

theorem split_on_first_equals_witness:
  "strip ''  API_KEY = a=b=c  '' = ''API_KEY '' @ CHR ''='' # '' a=b=c'' \<and>
   CHR ''='' \<notin> set ''API_KEY '' \<and>
   key_grammar (strip ''API_KEY '') \<and>
   parse_line 1 ''  API_KEY = a=b=c  '' ([], [], []) = Inr ([(''API_KEY'', ''a=b=c'')], [], [])"
proof -
  have h1: "strip ''  API_KEY = a=b=c  '' = ''API_KEY '' @ CHR ''='' # '' a=b=c''"
    by code_simp
  have h2: "CHR ''='' \<notin> set ''API_KEY ''"
    by simp
  have h3: "key_grammar (strip ''API_KEY '')"
    by code_simp
  have k: "strip ''API_KEY '' = ''API_KEY''" by code_simp
  have v: "strip '' a=b=c'' = ''a=b=c''" by code_simp
  from split_on_first_equals [OF h1 h2 h3, of 1 "[]" "[]" "[]"]
  have "parse_line 1 ''  API_KEY = a=b=c  '' ([], [], []) = Inr ([(''API_KEY'', ''a=b=c'')], [], [])"
    unfolding k v by simp
  with h1 h2 h3 show ?thesis by blast
qed

text \<open>
  Claim C4. \<open>parse_env\<close> returns, and a required key is in the list of missing keys
  exactly when the mapping has no binding for it or binds it to the empty string. In
  particular, when the last line that sets a key is well formed with nothing but
  whitespace after its first \<open>=\<close>, the mapping binds the key to the empty string, the key
  is missing if it is required, it is not among the placeholder keys, and the line is
  not recorded as malformed.
\<close>

theorem missing_required_keys:
  "\<exists>values duplicates malformed.
     parse_env text = Inr (values, duplicates, malformed) \<and>
     (\<forall>k \<in> set require.
        k \<in> set (missing_keys require values) \<longleftrightarrow>
          (map_of values k = None \<or> map_of values k = Some [])) \<and>
     (\<forall>before raw_line after k v.
        splitlines text = before @ raw_line # after \<and>
        strip raw_line = k @ CHR ''='' # v \<and> CHR ''='' \<notin> set k \<and>
        key_grammar (strip k) \<and> strip v = [] \<and>
        strip k \<notin> fst ` set (entries after) \<longrightarrow>
          map_of values (strip k) = Some [] \<and>
          (strip k \<in> set require \<longrightarrow> strip k \<in> set (missing_keys require values)) \<and>
          strip k \<notin> set (placeholder_keys values) \<and>
          (Suc (length before), raw_line) \<notin> set malformed)"
proof -
  let ?vs = "store_all [] (entries (splitlines text))"
  let ?ds = "dup_notices [] (entries (splitlines text))"
  let ?ms = "filter (\<lambda>(idx, raw). line_malformed raw) (enumerate 1 (splitlines text))"
  have pe: "parse_env text = Inr (?vs, ?ds, ?ms)" by (rule parse_env_run)
  have a: "\<forall>k \<in> set require.
        k \<in> set (missing_keys require ?vs) \<longleftrightarrow>
          (map_of ?vs k = None \<or> map_of ?vs k = Some [])"
    by (simp add: missing_keys_iff)
  have b: "map_of ?vs (strip k) = Some [] \<and>
          (strip k \<in> set require \<longrightarrow> strip k \<in> set (missing_keys require ?vs)) \<and>
          strip k \<notin> set (placeholder_keys ?vs) \<and>
          (Suc (length before), raw_line) \<notin> set ?ms"
    if l: "splitlines text = before @ raw_line # after"
      and s: "strip raw_line = k @ CHR ''='' # v" and f: "CHR ''='' \<notin> set k"
      and g: "key_grammar (strip k)" and e: "strip v = []"
      and n: "strip k \<notin> fst ` set (entries after)"
    for before raw_line after k v
  proof -
    note wf = line_entry_well_formed [OF s f g]
    have m: "map_of ?vs (strip k) = Some []"
      using last_entry_stored [OF l wf(1) n] e by simp
    have p: "strip k \<notin> set (placeholder_keys ?vs)"
      using distinct_parsed_keys m by (rule empty_value_not_placeholder)
    show ?thesis
      using m p wf(2) by (simp add: missing_keys_iff)
  qed
  from pe a b show ?thesis by blast
qed

theorem missing_required_keys_witness:
  "parse_env ''KEY=\<newline>A=1'' = Inr ([(''KEY'', []), (''A'', ''1'')], [], []) \<and>
   ''KEY'' \<in> set [''KEY'', ''B''] \<and>
   map_of [(''KEY'', []), (''A'', ''1'')] ''KEY'' = Some [] \<and>
   ''KEY'' \<in> set (missing_keys [''KEY'', ''B''] [(''KEY'', []), (''A'', ''1'')])"
proof -
  have e: "parse_env ''KEY=\<newline>A=1'' = Inr ([(''KEY'', []), (''A'', ''1'')], [], [])"
    by code_simp
  from missing_required_keys [of "''KEY=\<newline>A=1''" "[''KEY'', ''B'']"]
  obtain vs ds ms where pe: "parse_env ''KEY=\<newline>A=1'' = Inr (vs, ds, ms)"
    and mk: "\<forall>k \<in> set [''KEY'', ''B''].
        k \<in> set (missing_keys [''KEY'', ''B''] vs) \<longleftrightarrow>
          (map_of vs k = None \<or> map_of vs k = Some [])"
    by blast
  from pe have vs: "vs = [(''KEY'', []), (''A'', ''1'')]" unfolding e by simp
  have m: "map_of [(''KEY'', []), (''A'', ''1'')] ''KEY'' = Some []" by simp
  have i: "''KEY'' \<in> set [''KEY'', ''B'']" by simp
  from mk i m have "''KEY'' \<in> set (missing_keys [''KEY'', ''B''] [(''KEY'', []), (''A'', ''1'')])"
    unfolding vs by blast
  with e i m show ?thesis by blast
qed

text \<open>
  Claim C5. \<open>is_placeholder\<close> holds of a value exactly when its lower-cased form has
  one of the seven fixed patterns as a contiguous substring; it does not hold of the
  empty string, and a key is only ever reported as a placeholder for a value that is
  not empty.
\<close>

theorem placeholder_detector:
  "(is_placeholder v \<longleftrightarrow>
      (\<exists>p \<in> {''changeme'', ''todo'', ''your-key'', ''your_token'', ''example'', ''replace-me'',
              ''placeholder''}.
         \<exists>xs ys. lower v = xs @ p @ ys)) \<and>
   \<not> is_placeholder [] \<and>
   (\<forall>values k. k \<in> set (placeholder_keys values) \<longrightarrow>
      (\<exists>value. (k, value) \<in> set values \<and> value \<noteq> [] \<and> is_placeholder value))"
proof -
  have s: "set PLACEHOLDER_PATTERNS =
      {''changeme'', ''todo'', ''your-key'', ''your_token'', ''example'', ''replace-me'',
       ''placeholder''}"
    by (simp add: PLACEHOLDER_PATTERNS_def)
  have 1: "is_placeholder v \<longleftrightarrow>
      (\<exists>p \<in> {''changeme'', ''todo'', ''your-key'', ''your_token'', ''example'', ''replace-me'',
              ''placeholder''}.
         \<exists>xs ys. lower v = xs @ p @ ys)"
    unfolding s [symmetric] by (simp add: is_placeholder_def list_ex_iff str_in_iff)
  have 2: "\<not> is_placeholder []"
    by (simp add: is_placeholder_def lower_def PLACEHOLDER_PATTERNS_def)
  have 3: "\<forall>values k. k \<in> set (placeholder_keys values) \<longrightarrow>
      (\<exists>value. (k, value) \<in> set values \<and> value \<noteq> [] \<and> is_placeholder value)"
    by (simp add: placeholder_keys_iff)
  from 1 2 3 show ?thesis by blast
qed

theorem placeholder_detector_witness:
  "is_placeholder ''https://Example.org'' \<and>
   lower ''https://Example.org'' = ''https://'' @ ''example'' @ ''.org'' \<and>
   \<not> is_placeholder []"
proof -
  have l: "lower ''https://Example.org'' = ''https://'' @ ''example'' @ ''.org''"
    by code_simp
  note t = placeholder_detector [of "''https://Example.org''"]
  have "\<exists>p \<in> {''changeme'', ''todo'', ''your-key'', ''your_token'', ''example'', ''replace-me'',
              ''placeholder''}.
         \<exists>xs ys. lower ''https://Example.org'' = xs @ p @ ys"
    by (rule bexI [of _ "''example''"], rule exI [of _ "''https://''"],
        rule exI [of _ "''.org''"], rule l, simp)
  then have p: "is_placeholder ''https://Example.org''"
    by (rule t [THEN conjunct1, THEN iffD2])
  have e: "\<not> is_placeholder []"
    by (rule t [THEN conjunct2, THEN conjunct1])
  show ?thesis
    by (intro conjI p l e)
qed

text \<open>
  Claim C1. On a file that exists, \<open>parse_env\<close> and \<open>main\<close> return; the exit code is 0
  exactly when the malformed lines, the duplicate keys, the missing required keys and
  the placeholder keys are all empty, and it is 1 otherwise; the last string printed is
  the pass message with code 0 and the fail message with code 1. The output always is
  the key count, then the four blocks in order, then that message, so every category
  is computed and printed whatever the others hold, and the heading of each block is
  in the output exactly when its category is not empty.
\<close>

theorem validation_outcome:
  "\<exists>values duplicates malformed code out.
     parse_env text = Inr (values, duplicates, malformed) \<and>
     validate_main env_file (Some text) require = Inr (code, out) \<and>
     (code = 0 \<longleftrightarrow>
        malformed = [] \<and> duplicates = [] \<and> missing_keys require values = [] \<and>
        placeholder_keys values = []) \<and>
     (code = 0 \<or> code = 1) \<and>
     last out =
       CHR 0x0A # (if code = 0 then ''[OK] Env validation passed.''
                   else ''[FAIL] Env validation failed.'') \<and>
     (CHR 0x0A # ''Malformed lines:'' \<in> set out \<longleftrightarrow> malformed \<noteq> []) \<and>
     (CHR 0x0A # ''Duplicate keys:'' \<in> set out \<longleftrightarrow> duplicates \<noteq> []) \<and>
     (CHR 0x0A # ''Missing required keys:'' \<in> set out \<longleftrightarrow>
        missing_keys require values \<noteq> []) \<and>
     (CHR 0x0A # ''Potential placeholder values detected:'' \<in> set out \<longleftrightarrow>
        placeholder_keys values \<noteq> []) \<and>
     out = [''Parsed keys: '' @ str_nat (length values)] @ malformed_block malformed
           @ duplicates_block duplicates @ missing_block (missing_keys require values)
           @ placeholders_block (placeholder_keys values) @ [last out]"
proof -
  define vs where "vs = store_all [] (entries (splitlines text))"
  define ds where "ds = dup_notices [] (entries (splitlines text))"
  define ms where
    "ms = filter (\<lambda>(idx, raw). line_malformed raw) (enumerate 1 (splitlines text))"
  define errs where
    "errs \<longleftrightarrow> ms \<noteq> [] \<or> ds \<noteq> [] \<or> missing_keys require vs \<noteq> [] \<or> placeholder_keys vs \<noteq> []"
  define final where
    "final = CHR 0x0A # (if errs then ''[FAIL] Env validation failed.''
                         else ''[OK] Env validation passed.'')"
  define body where
    "body = [''Parsed keys: '' @ str_nat (length vs)] @ malformed_block ms
           @ duplicates_block ds @ missing_block (missing_keys require vs)
           @ placeholders_block (placeholder_keys vs)"
  define code :: nat where "code = (if errs then 1 else 0)"
  define out where "out = body @ [final]"
  have pe: "parse_env text = Inr (vs, ds, ms)"
    unfolding vs_def ds_def ms_def by (rule parse_env_run)
  have vm: "validate_main env_file (Some text) require = Inr (code, out)"
    unfolding validate_main_run Let_def code_def out_def body_def final_def errs_def
      vs_def ds_def ms_def
    by simp
  have c0: "code = 0 \<longleftrightarrow>
        ms = [] \<and> ds = [] \<and> missing_keys require vs = [] \<and> placeholder_keys vs = []"
    by (auto simp: code_def errs_def)
  have c1: "code = 0 \<or> code = 1"
    by (simp add: code_def)
  have lo: "last out = final" by (simp add: out_def)
  have l: "last out =
       CHR 0x0A # (if code = 0 then ''[OK] Env validation passed.''
                   else ''[FAIL] Env validation failed.'')"
    unfolding lo by (simp add: final_def code_def)
  have fin: "final = CHR 0x0A # ''[FAIL] Env validation failed.'' \<or>
             final = CHR 0x0A # ''[OK] Env validation passed.''"
    by (simp add: final_def)
  have h1: "CHR 0x0A # ''Malformed lines:'' \<in> set out \<longleftrightarrow> ms \<noteq> []"
    using fin by (auto simp: out_def body_def heading_in_block)
  have h2: "CHR 0x0A # ''Duplicate keys:'' \<in> set out \<longleftrightarrow> ds \<noteq> []"
    using fin by (auto simp: out_def body_def heading_in_block)
  have h3: "CHR 0x0A # ''Missing required keys:'' \<in> set out \<longleftrightarrow>
        missing_keys require vs \<noteq> []"
    using fin by (auto simp: out_def body_def heading_in_block)
  have h4: "CHR 0x0A # ''Potential placeholder values detected:'' \<in> set out \<longleftrightarrow>
        placeholder_keys vs \<noteq> []"
    using fin by (auto simp: out_def body_def heading_in_block)
  have o: "out = [''Parsed keys: '' @ str_nat (length vs)] @ malformed_block ms
           @ duplicates_block ds @ missing_block (missing_keys require vs)
           @ placeholders_block (placeholder_keys vs) @ [last out]"
    unfolding lo by (simp add: out_def body_def)
  show ?thesis
    by (intro exI conjI) (rule pe vm c0 c1 l h1 h2 h3 h4 o)+
qed

theorem validation_outcome_witness:
  "validate_main ''.env'' (Some ''A=1\<newline>A=changeme\<newline>bad line'') [''B''] =
     Inr (1, [''Parsed keys: 1'',
              ''\<newline>Malformed lines:'', ''  - line 3: bad line'',
              ''\<newline>Duplicate keys:'', ''  - A'',
              ''\<newline>Missing required keys:'', ''  - B'',
              ''\<newline>Potential placeholder values detected:'', ''  - A'',
              ''\<newline>[FAIL] Env validation failed.'']) \<and>
   validate_main ''.env'' (Some ''A=1'') [''A''] =
     Inr (0, [''Parsed keys: 1'', ''\<newline>[OK] Env validation passed.''])"
proof -
  have e1: "validate_main ''.env'' (Some ''A=1\<newline>A=changeme\<newline>bad line'') [''B''] =
     Inr (1, [''Parsed keys: 1'',
              ''\<newline>Malformed lines:'', ''  - line 3: bad line'',
              ''\<newline>Duplicate keys:'', ''  - A'',
              ''\<newline>Missing required keys:'', ''  - B'',
              ''\<newline>Potential placeholder values detected:'', ''  - A'',
              ''\<newline>[FAIL] Env validation failed.''])"
    by code_simp
  have e2: "validate_main ''.env'' (Some ''A=1'') [''A''] =
     Inr (0, [''Parsed keys: 1'', ''\<newline>[OK] Env validation passed.''])"
    by code_simp
  from validation_outcome [of "''A=1''" "''.env''" "[''A'']"]
  obtain code out where vm: "validate_main ''.env'' (Some ''A=1'') [''A''] = Inr (code, out)"
    and lo: "last out =
       CHR 0x0A # (if code = 0 then ''[OK] Env validation passed.''
                   else ''[FAIL] Env validation failed.'')"
    by blast
  from vm have "code = 0" and "out = [''Parsed keys: 1'', ''\<newline>[OK] Env validation passed.'']"
    unfolding e2 by simp_all
  with lo e1 e2 show ?thesis by simp
qed

section \<open>Claims about the rollout planner\<close>

lemma join_Cons: "xs \<noteq> [] \<Longrightarrow> join sep (x # xs) = x @ sep @ join sep xs"
  by (cases xs) auto

lemma str_split_acc_nonempty: "str_split_acc sep acc s \<noteq> []"
  by (induction s arbitrary: acc) auto

lemma join_str_split_acc: "join [sep] (str_split_acc sep acc s) = rev acc @ s"
  by (induction s arbitrary: acc) (auto simp: join_Cons str_split_acc_nonempty)

lemma join_str_split: "join [sep] (str_split sep s) = s"
  by (simp add: str_split_def join_str_split_acc)

lemma str_split_acc_no_sep:
  "sep \<notin> set acc \<Longrightarrow> \<forall>x \<in> set (str_split_acc sep acc s). sep \<notin> set x"
proof (induction s arbitrary: acc)
  case Nil
  then show ?case by simp
next
  case (Cons c cs)
  show ?case
  proof (cases "c = sep")
    case True
    have "\<forall>x \<in> set (str_split_acc sep [] cs). sep \<notin> set x"
      by (rule Cons.IH) simp
    with True Cons.prems show ?thesis by simp
  next
    case False
    with Cons.prems have "sep \<notin> set (c # acc)" by simp
    then have "\<forall>x \<in> set (str_split_acc sep (c # acc) cs). sep \<notin> set x"
      by (rule Cons.IH)
    with False show ?thesis by simp
  qed
qed

lemma str_split_no_sep: "x \<in> set (str_split sep s) \<Longrightarrow> sep \<notin> set x"
  unfolding str_split_def using str_split_acc_no_sep [of sep "[]" s] by simp

lemma join_names_member: "c \<in> set xs \<Longrightarrow> \<exists>a b. join sep xs = a @ c @ b"
proof (induction sep xs rule: join.induct)
  case (1 sep)
  then show ?case by simp
next
  case (2 sep x)
  then have "join sep [x] = [] @ c @ []" by simp
  then show ?case by blast
next
  case (3 sep x y ys)
  show ?case
  proof (cases "c = x")
    case True
    then have "join sep (x # y # ys) = [] @ c @ (sep @ join sep (y # ys))" by simp
    then show ?thesis by blast
  next
    case False
    with 3 obtain a b where "join sep (y # ys) = a @ c @ b" by auto
    then have "join sep (x # y # ys) = (x @ sep @ a) @ c @ b" by simp
    then show ?thesis by blast
  qed
qed

lemma channel_unknown:
  "map_of CHANNEL_LINKS c = None \<longleftrightarrow> c \<notin> {''telegram'', ''discord'', ''slack''}"
  by (simp add: CHANNEL_LINKS_def)

text \<open>
  Claim C6. The segments of the raw string are its pieces between commas. The
  identifiers are the segments that are not blank, trimmed and lower-cased, in order.
  \<open>parse_channels\<close> returns the identifiers when all of them are among telegram,
  discord and slack, so the empty string gives the empty list and no error; it fails
  exactly when some identifier is not among the three, and then with one
  \<open>ValueError\<close> whose message is the fixed prefix and all the offending identifiers
  joined by a comma and a space, so each of them occurs in the message.
\<close>

theorem channel_parsing:
  "parse_channels [] = Inr [] \<and>
   (let segments = str_split (CHR '','') raw;
        idents = map (\<lambda>c. lower (strip c)) (filter (\<lambda>c. strip c \<noteq> []) segments);
        invalid = filter (\<lambda>c. c \<notin> {''telegram'', ''discord'', ''slack''}) idents;
        message = ''Unsupported channels: '' @ join '', '' invalid
    in join '','' segments = raw \<and>
       (\<forall>s \<in> set segments. CHR '','' \<notin> set s) \<and>
       (invalid = [] \<longrightarrow> parse_channels raw = Inr idents) \<and>
       (invalid \<noteq> [] \<longrightarrow> parse_channels raw = Inl (ValueError message)) \<and>
       ((\<exists>e. parse_channels raw = Inl e) \<longleftrightarrow>
          (\<exists>c \<in> set idents. c \<notin> {''telegram'', ''discord'', ''slack''})) \<and>
       (\<forall>c \<in> set idents. c \<notin> {''telegram'', ''discord'', ''slack''} \<longrightarrow>
          (\<exists>a b. message = a @ c @ b)))"
proof -
  define segments where "segments = str_split (CHR '','') raw"
  define idents where
    "idents = map (\<lambda>c. lower (strip c)) (filter (\<lambda>c. strip c \<noteq> []) segments)"
  define invalid where
    "invalid = filter (\<lambda>c. c \<notin> {''telegram'', ''discord'', ''slack''}) idents"
  define message where "message = ''Unsupported channels: '' @ join '', '' invalid"
  have pc: "parse_channels raw =
      (if invalid \<noteq> [] then Inl (ValueError message) else Inr idents)"
    unfolding parse_channels_def Let_def channel_unknown
      message_def invalid_def idents_def segments_def
    by simp
  have e: "parse_channels [] = Inr []"
    by (simp add: parse_channels_def str_split_def strip_def)
  have j: "join '','' segments = raw"
    unfolding segments_def by (rule join_str_split)
  have n: "\<forall>s \<in> set segments. CHR '','' \<notin> set s"
    unfolding segments_def by (blast dest: str_split_no_sep)
  have a: "invalid = [] \<longrightarrow> parse_channels raw = Inr idents"
    by (simp add: pc)
  have b: "invalid \<noteq> [] \<longrightarrow> parse_channels raw = Inl (ValueError message)"
    by (simp add: pc)
  have iv: "invalid \<noteq> [] \<longleftrightarrow> (\<exists>c \<in> set idents. c \<notin> {''telegram'', ''discord'', ''slack''})"
    unfolding invalid_def by (simp only: filter_empty_conv) blast
  have f: "(\<exists>e. parse_channels raw = Inl e) \<longleftrightarrow>
          (\<exists>c \<in> set idents. c \<notin> {''telegram'', ''discord'', ''slack''})"
    unfolding iv [symmetric] by (simp add: pc)
  have m: "\<forall>c \<in> set idents. c \<notin> {''telegram'', ''discord'', ''slack''} \<longrightarrow>
          (\<exists>a b. message = a @ c @ b)"
  proof (intro ballI impI)
    fix c assume "c \<in> set idents" and "c \<notin> {''telegram'', ''discord'', ''slack''}"
    then have "c \<in> set invalid" by (simp add: invalid_def)
    then obtain a b where "join '', '' invalid = a @ c @ b"
      using join_names_member by blast
    then have "message = (''Unsupported channels: '' @ a) @ c @ b"
      by (simp add: message_def)
    then show "\<exists>a b. message = a @ c @ b" by blast
  qed
  show ?thesis
    unfolding Let_def
    using e j n a b f m
    unfolding segments_def idents_def invalid_def message_def
    by (intro conjI)
qed

theorem channel_parsing_witness:
  "parse_channels '' Telegram , DISCORD '' = Inr [''telegram'', ''discord''] \<and>
   parse_channels ''telegram,bogus1,,Bogus2'' =
     Inl (ValueError ''Unsupported channels: bogus1, bogus2'') \<and>
   parse_channels [] = Inr []"
proof -
  have i1: "map (\<lambda>c. lower (strip c))
              (filter (\<lambda>c. strip c \<noteq> []) (str_split (CHR '','') '' Telegram , DISCORD ''))
            = [''telegram'', ''discord'']"
    by code_simp
  have v1: "filter (\<lambda>c. c \<notin> {''telegram'', ''discord'', ''slack''}) [''telegram'', ''discord'']
            = []"
    by simp
  have i2: "map (\<lambda>c. lower (strip c))
              (filter (\<lambda>c. strip c \<noteq> []) (str_split (CHR '','') ''telegram,bogus1,,Bogus2''))
            = [''telegram'', ''bogus1'', ''bogus2'']"
    by code_simp
  have v2: "filter (\<lambda>c. c \<notin> {''telegram'', ''discord'', ''slack''})
              [''telegram'', ''bogus1'', ''bogus2'']
            = [''bogus1'', ''bogus2'']"
    by simp
  have m2: "''Unsupported channels: '' @ join '', '' [''bogus1'', ''bogus2'']
            = ''Unsupported channels: bogus1, bogus2''"
    by simp
  note t1 = channel_parsing [of "'' Telegram , DISCORD ''", unfolded Let_def i1 v1]
  note t2 = channel_parsing [of "''telegram,bogus1,,Bogus2''", unfolded Let_def i2 v2 m2]
  have a: "parse_channels '' Telegram , DISCORD '' = Inr [''telegram'', ''discord'']"
    using t1 by simp
  have b: "parse_channels ''telegram,bogus1,,Bogus2'' =
     Inl (ValueError ''Unsupported channels: bogus1, bogus2'')"
    using t2 by simp
  have c: "parse_channels [] = Inr []"
    using t1 by simp
  show ?thesis by (intro conjI a b c)
qed

lemma channel_known:
  "c \<in> {''telegram'', ''discord'', ''slack''} \<Longrightarrow> \<exists>url. map_of CHANNEL_LINKS c = Some url"
  using channel_unknown [of c] by (cases "map_of CHANNEL_LINKS c") auto

lemma provider_known:
  "provider \<in> {''fly'', ''render'', ''railway'', ''hetzner'', ''gcp''} \<longleftrightarrow>
     (\<exists>url. map_of PROVIDER_LINKS provider = Some url)"
  by (simp add: PROVIDER_LINKS_def)

lemma channel_loop_valid:
  "\<forall>c \<in> set channels. c \<in> {''telegram'', ''discord'', ''slack''} \<Longrightarrow>
     channel_loop lines channels = Inr (lines @ channel_items channels)"
proof (induction channels arbitrary: lines)
  case Nil
  then show ?case by (simp add: channel_items_def)
next
  case (Cons c cs)
  then obtain url where u: "map_of CHANNEL_LINKS c = Some url"
    using channel_known [of c] by auto
  from Cons.prems have "\<forall>c \<in> set cs. c \<in> {''telegram'', ''discord'', ''slack''}" by simp
  then have "channel_loop (lines @ [configure_line c url, smoke_line c]) cs =
      Inr ((lines @ [configure_line c url, smoke_line c]) @ channel_items cs)"
    by (rule Cons.IH)
  then show ?case by (simp add: u channel_items_def)
qed

lemma length_channel_items: "length (channel_items channels) = 2 * length channels"
  by (induction channels) (auto simp: channel_items_def)

lemma nth_channel_items:
  "i < length channels \<Longrightarrow>
     channel_items channels ! (2 * i) =
       configure_line (channels ! i) (the (map_of CHANNEL_LINKS (channels ! i))) \<and>
     channel_items channels ! (2 * i + 1) = smoke_line (channels ! i)"
proof (induction channels arbitrary: i)
  case Nil
  then show ?case by simp
next
  case (Cons c cs)
  show ?case
  proof (cases i)
    case 0
    then show ?thesis by (simp add: channel_items_def)
  next
    case (Suc j)
    with Cons.prems have "j < length cs" by simp
    from Cons.IH [OF this] Suc show ?thesis by (simp add: channel_items_def)
  qed
qed

lemma channel_items_nonempty: "l \<in> set (channel_items channels) \<Longrightarrow> l \<noteq> []"
  by (auto simp: channel_items_def configure_line_def smoke_line_def)

lemma head_lines_to_heading:
  "dropWhile (\<lambda>l. l \<noteq> ''## 3. Channels'') (head_lines now provider environment url @ rest) =
     ''## 3. Channels'' # rest"
  by (simp add: head_lines_def)

lemma section_of_render:
  assumes "\<forall>l \<in> set items. l \<noteq> []"
  shows "section_lines ''## 3. Channels''
           (head_lines now provider environment url @ items @ tail_lines) = items"
proof -
  have "takeWhile (\<lambda>l. l \<noteq> []) (items @ tail_lines) = items"
    using assms by (simp add: tail_lines_def takeWhile_append2)
  then show ?thesis
    unfolding section_lines_def head_lines_to_heading by simp
qed

lemma render_lines_valid:
  assumes "map_of PROVIDER_LINKS provider = Some url"
    and "\<forall>c \<in> set channels. c \<in> {''telegram'', ''discord'', ''slack''}"
  shows "render_lines now provider channels environment =
           Inr (head_lines now provider environment url
                @ (if channels \<noteq> [] then channel_items channels else [no_channels_line])
                @ tail_lines)"
  using assms by (simp add: render_lines_def channel_loop_valid)

lemma render_valid:
  assumes "map_of PROVIDER_LINKS provider = Some url"
    and "\<forall>c \<in> set channels. c \<in> {''telegram'', ''discord'', ''slack''}"
  shows "render now provider channels environment =
           Inr (join [CHR 0x0A]
                  (head_lines now provider environment url
                   @ (if channels \<noteq> [] then channel_items channels else [no_channels_line])
                   @ tail_lines))"
  unfolding render_def render_lines_valid [OF assms] by simp

lemma parse_channels_cases:
  "(\<exists>msg. parse_channels raw = Inl (ValueError msg)) \<or>
   (\<exists>channels. parse_channels raw = Inr channels \<and>
      (\<forall>c \<in> set channels. c \<in> {''telegram'', ''discord'', ''slack''}))"
proof -
  define idents where
    "idents = map (\<lambda>c. lower (strip c))
                (filter (\<lambda>c. strip c \<noteq> []) (str_split (CHR '','') raw))"
  define invalid where "invalid = filter (\<lambda>c. map_of CHANNEL_LINKS c = None) idents"
  have pc: "parse_channels raw =
      (if invalid \<noteq> []
       then Inl (ValueError (''Unsupported channels: '' @ join '', '' invalid))
       else Inr idents)"
    unfolding parse_channels_def Let_def invalid_def idents_def by simp
  show ?thesis
  proof (cases "invalid = []")
    case True
    then have "\<forall>c \<in> set idents. c \<in> {''telegram'', ''discord'', ''slack''}"
      unfolding invalid_def filter_empty_conv channel_unknown by blast
    with True pc show ?thesis by simp
  next
    case False
    with pc show ?thesis by simp
  qed
qed

lemma no_channels_line_counts:
  "length (filter (str_in ''No channels selected'') [no_channels_line]) = 1"
  "filter (str_in ''Configure'') [no_channels_line] = []"
  by code_simp+

lemma provider_choices:
  "set (sort (map fst PROVIDER_LINKS)) = {''fly'', ''render'', ''railway'', ''hetzner'', ''gcp''}"
  unfolding set_sort by (simp add: PROVIDER_LINKS_def)

lemma link_keys:
  "fst ` set PROVIDER_LINKS = {''fly'', ''render'', ''railway'', ''hetzner'', ''gcp''}"
  "fst ` set CHANNEL_LINKS = {''telegram'', ''discord'', ''slack''}"
  by (simp_all add: PROVIDER_LINKS_def CHANNEL_LINKS_def)

lemma str_split_acc_line:
  "sep \<notin> set x \<Longrightarrow>
     str_split_acc sep acc (x @ sep # rest) = (rev acc @ x) # str_split_acc sep [] rest"
  by (induction x arbitrary: acc) auto

lemma str_split_acc_last: "sep \<notin> set x \<Longrightarrow> str_split_acc sep acc x = [rev acc @ x]"
  by (induction x arbitrary: acc) auto

lemma str_split_join:
  "xs \<noteq> [] \<Longrightarrow> \<forall>x \<in> set xs. sep \<notin> set x \<Longrightarrow> str_split sep (join [sep] xs) = xs"
proof (induction xs)
  case Nil
  then show ?case by simp
next
  case (Cons x xs)
  show ?case
  proof (cases "xs = []")
    case True
    with Cons.prems show ?thesis by (simp add: str_split_def str_split_acc_last)
  next
    case False
    with Cons have ih: "str_split sep (join [sep] xs) = xs" by simp
    from Cons.prems have "sep \<notin> set x" by simp
    then have "str_split sep (x @ sep # join [sep] xs) = x # str_split sep (join [sep] xs)"
      by (simp add: str_split_def str_split_acc_line)
    with False ih show ?thesis by (simp add: join_Cons)
  qed
qed

lemma head_lines_no_lf:
  assumes "CHR 0x0A \<notin> set now" and "CHR 0x0A \<notin> set provider"
    and "CHR 0x0A \<notin> set environment" and "CHR 0x0A \<notin> set url"
  shows "\<forall>l \<in> set (head_lines now provider environment url). CHR 0x0A \<notin> set l"
  using assms by (simp add: head_lines_def)

lemma tail_lines_no_lf: "\<forall>l \<in> set tail_lines. CHR 0x0A \<notin> set l"
  by (simp add: tail_lines_def)

lemma channel_lines_no_lf:
  assumes "c \<in> {''telegram'', ''discord'', ''slack''}"
  shows "CHR 0x0A \<notin> set (configure_line c (the (map_of CHANNEL_LINKS c)))"
    and "CHR 0x0A \<notin> set (smoke_line c)"
  using assms by (auto simp: configure_line_def smoke_line_def CHANNEL_LINKS_def)

lemma channel_items_no_lf:
  "\<forall>c \<in> set channels. c \<in> {''telegram'', ''discord'', ''slack''} \<Longrightarrow>
     \<forall>l \<in> set (channel_items channels). CHR 0x0A \<notin> set l"
  unfolding channel_items_def using channel_lines_no_lf by auto

lemma provider_no_lf:
  assumes "map_of PROVIDER_LINKS provider = Some url"
  shows "CHR 0x0A \<notin> set provider" and "CHR 0x0A \<notin> set url"
  using assms by (auto simp: PROVIDER_LINKS_def split: if_splits)

lemma document_lines_of_render:
  assumes u: "map_of PROVIDER_LINKS provider = Some url"
    and v: "\<forall>c \<in> set channels. c \<in> {''telegram'', ''discord'', ''slack''}"
    and n: "CHR 0x0A \<notin> set now" and e: "CHR 0x0A \<notin> set environment"
  shows "\<exists>doc. render now provider channels environment = Inr doc \<and>
           document_lines doc =
             head_lines now provider environment url
             @ (if channels \<noteq> [] then channel_items channels else [no_channels_line])
             @ tail_lines"
proof -
  define items where
    "items = (if channels \<noteq> [] then channel_items channels else [no_channels_line])"
  define lines where "lines = head_lines now provider environment url @ items @ tail_lines"
  have r: "render now provider channels environment = Inr (join [CHR 0x0A] lines)"
    unfolding lines_def items_def by (rule render_valid [OF u v])
  have h: "\<forall>l \<in> set (head_lines now provider environment url). CHR 0x0A \<notin> set l"
    using n provider_no_lf [OF u] e by (intro head_lines_no_lf)
  have i: "\<forall>l \<in> set items. CHR 0x0A \<notin> set l"
    using channel_items_no_lf [OF v] by (simp add: items_def no_channels_line_def)
  have "\<forall>l \<in> set lines. CHR 0x0A \<notin> set l"
    unfolding lines_def using h i tail_lines_no_lf by auto
  moreover have "lines \<noteq> []"
    by (simp add: lines_def tail_lines_def)
  ultimately have "document_lines (join [CHR 0x0A] lines) = lines"
    unfolding document_lines_def by (intro str_split_join)
  with r show ?thesis
    unfolding lines_def items_def by blast
qed

text \<open>
  Claim C7, as amended. For a provider among the five, channels among the three, and a
  timestamp and an environment label without a line feed, \<open>render\<close> returns a document
  whose Channels section (the lines of the document under the first line equal to the
  heading, up to the next empty line) is: for no channels, the single line that says
  no channels were selected, with no line that has \<open>Configure\<close> in it; for a non-empty
  list, twice as many lines as channels, the configure line of the \<open>i\<close>-th channel at
  position \<open>2i\<close> and its smoke-test line at position \<open>2i + 1\<close>, so in the order of the
  list and once more for every repetition.
\<close>

theorem document_channels_section:
  assumes "provider \<in> {''fly'', ''render'', ''railway'', ''hetzner'', ''gcp''}"
    and "\<forall>c \<in> set channels. c \<in> {''telegram'', ''discord'', ''slack''}"
    and "CHR 0x0A \<notin> set now"
    and "CHR 0x0A \<notin> set environment"
  shows "\<exists>doc.
           render now provider channels environment = Inr doc \<and>
           (channels = [] \<longrightarrow>
              section_lines ''## 3. Channels'' (document_lines doc) =
                [''- [ ] No channels selected for this rollout.''] \<and>
              length (filter (str_in ''No channels selected'')
                        (section_lines ''## 3. Channels'' (document_lines doc))) = 1 \<and>
              filter (str_in ''Configure'')
                (section_lines ''## 3. Channels'' (document_lines doc)) = []) \<and>
           (channels \<noteq> [] \<longrightarrow>
              length (section_lines ''## 3. Channels'' (document_lines doc)) =
                2 * length channels \<and>
              (\<forall>i < length channels.
                 \<exists>url. map_of CHANNEL_LINKS (channels ! i) = Some url \<and>
                   section_lines ''## 3. Channels'' (document_lines doc) ! (2 * i) =
                     ''- [ ] Configure '' @ channels ! i @ '': '' @ url \<and>
                   section_lines ''## 3. Channels'' (document_lines doc) ! (2 * i + 1) =
                     ''- [ ] Send '' @ channels ! i
                     @ '' smoke-test message and verify response path.''))"
proof -
  from assms(1) obtain url where u: "map_of PROVIDER_LINKS provider = Some url"
    unfolding provider_known by blast
  define items where
    "items = (if channels \<noteq> [] then channel_items channels else [no_channels_line])"
  from document_lines_of_render [OF u assms(2,3,4)] obtain doc
    where r: "render now provider channels environment = Inr doc"
      and dl: "document_lines doc = head_lines now provider environment url @ items @ tail_lines"
    unfolding items_def by blast
  have ne: "\<forall>l \<in> set items. l \<noteq> []"
    by (auto simp: items_def no_channels_line_def dest: channel_items_nonempty)
  have sec: "section_lines ''## 3. Channels'' (document_lines doc) = items"
    unfolding dl by (rule section_of_render [OF ne])
  have a: "channels = [] \<longrightarrow>
              section_lines ''## 3. Channels'' (document_lines doc) =
                [''- [ ] No channels selected for this rollout.''] \<and>
              length (filter (str_in ''No channels selected'')
                        (section_lines ''## 3. Channels'' (document_lines doc))) = 1 \<and>
              filter (str_in ''Configure'')
                (section_lines ''## 3. Channels'' (document_lines doc)) = []"
  proof
    assume "channels = []"
    then have i: "items = [no_channels_line]" by (simp add: items_def)
    show "section_lines ''## 3. Channels'' (document_lines doc) =
                [''- [ ] No channels selected for this rollout.''] \<and>
              length (filter (str_in ''No channels selected'')
                        (section_lines ''## 3. Channels'' (document_lines doc))) = 1 \<and>
              filter (str_in ''Configure'')
                (section_lines ''## 3. Channels'' (document_lines doc)) = []"
      unfolding sec i no_channels_line_counts
      by (simp add: no_channels_line_def)
  qed
  have b: "channels \<noteq> [] \<longrightarrow>
              length (section_lines ''## 3. Channels'' (document_lines doc)) =
                2 * length channels \<and>
              (\<forall>i < length channels.
                 \<exists>url. map_of CHANNEL_LINKS (channels ! i) = Some url \<and>
                   section_lines ''## 3. Channels'' (document_lines doc) ! (2 * i) =
                     ''- [ ] Configure '' @ channels ! i @ '': '' @ url \<and>
                   section_lines ''## 3. Channels'' (document_lines doc) ! (2 * i + 1) =
                     ''- [ ] Send '' @ channels ! i
                     @ '' smoke-test message and verify response path.'')"
  proof
    assume "channels \<noteq> []"
    then have i: "items = channel_items channels" by (simp add: items_def)
    have "\<exists>url. map_of CHANNEL_LINKS (channels ! i) = Some url \<and>
                   channel_items channels ! (2 * i) =
                     ''- [ ] Configure '' @ channels ! i @ '': '' @ url \<and>
                   channel_items channels ! (2 * i + 1) =
                     ''- [ ] Send '' @ channels ! i
                     @ '' smoke-test message and verify response path.''"
      if "i < length channels" for i
    proof -
      from that assms(2) have "channels ! i \<in> {''telegram'', ''discord'', ''slack''}"
        by (meson nth_mem)
      then obtain url where cu: "map_of CHANNEL_LINKS (channels ! i) = Some url"
        using channel_known by blast
      from nth_channel_items [OF that] cu show ?thesis
        by (simp add: configure_line_def smoke_line_def)
    qed
    then show "length (section_lines ''## 3. Channels'' (document_lines doc)) =
                2 * length channels \<and>
              (\<forall>i < length channels.
                 \<exists>url. map_of CHANNEL_LINKS (channels ! i) = Some url \<and>
                   section_lines ''## 3. Channels'' (document_lines doc) ! (2 * i) =
                     ''- [ ] Configure '' @ channels ! i @ '': '' @ url \<and>
                   section_lines ''## 3. Channels'' (document_lines doc) ! (2 * i + 1) =
                     ''- [ ] Send '' @ channels ! i
                     @ '' smoke-test message and verify response path.'')"
      unfolding sec i by (simp add: length_channel_items)
  qed
  show ?thesis
    by (intro exI conjI) (rule r a b)+
qed

theorem document_channels_section_witness:
  "''fly'' \<in> {''fly'', ''render'', ''railway'', ''hetzner'', ''gcp''} \<and>
   CHR 0x0A \<notin> set ''2026-01-01T00:00:00+00:00'' \<and>
   CHR 0x0A \<notin> set ''prod'' \<and>
   section_lines ''## 3. Channels''
     (document_lines
        (projr (render ''2026-01-01T00:00:00+00:00'' ''fly'' [''slack'', ''slack''] ''prod''))) =
     [''- [ ] Configure slack: https://docs.openclaw.ai/channels/slack'',
      ''- [ ] Send slack smoke-test message and verify response path.'',
      ''- [ ] Configure slack: https://docs.openclaw.ai/channels/slack'',
      ''- [ ] Send slack smoke-test message and verify response path.''] \<and>
   length (section_lines ''## 3. Channels''
     (document_lines
        (projr (render ''2026-01-01T00:00:00+00:00'' ''fly'' [''slack'', ''slack''] ''prod'')))) =
     2 * length [''slack'', ''slack''] \<and>
   section_lines ''## 3. Channels''
     (document_lines (projr (render ''2026-01-01T00:00:00+00:00'' ''fly'' [] ''prod''))) =
     [''- [ ] No channels selected for this rollout.'']"
proof -
  have p: "''fly'' \<in> {''fly'', ''render'', ''railway'', ''hetzner'', ''gcp''}" by simp
  have n: "CHR 0x0A \<notin> set ''2026-01-01T00:00:00+00:00''" by simp
  have e: "CHR 0x0A \<notin> set ''prod''" by simp
  have c2: "\<forall>c \<in> set [''slack'', ''slack'']. c \<in> {''telegram'', ''discord'', ''slack''}"
    by simp
  have c0: "\<forall>c \<in> set ([] :: string list). c \<in> {''telegram'', ''discord'', ''slack''}"
    by simp
  have s2: "section_lines ''## 3. Channels''
     (document_lines
        (projr (render ''2026-01-01T00:00:00+00:00'' ''fly'' [''slack'', ''slack''] ''prod''))) =
     [''- [ ] Configure slack: https://docs.openclaw.ai/channels/slack'',
      ''- [ ] Send slack smoke-test message and verify response path.'',
      ''- [ ] Configure slack: https://docs.openclaw.ai/channels/slack'',
      ''- [ ] Send slack smoke-test message and verify response path.'']"
    by code_simp
  from document_channels_section [OF p c2 n e]
  obtain doc where r: "render ''2026-01-01T00:00:00+00:00'' ''fly'' [''slack'', ''slack''] ''prod''
      = Inr doc"
    and len: "[''slack'', ''slack''] \<noteq> [] \<longrightarrow>
       length (section_lines ''## 3. Channels'' (document_lines doc)) =
         2 * length [''slack'', ''slack'']"
    by blast
  from len have l2: "length (section_lines ''## 3. Channels''
     (document_lines
        (projr (render ''2026-01-01T00:00:00+00:00'' ''fly'' [''slack'', ''slack''] ''prod'')))) =
     2 * length [''slack'', ''slack'']"
    unfolding r by simp
  from document_channels_section [OF p c0 n e]
  obtain doc0 where r0: "render ''2026-01-01T00:00:00+00:00'' ''fly'' [] ''prod'' = Inr doc0"
    and s: "([] :: string list) = [] \<longrightarrow>
       section_lines ''## 3. Channels'' (document_lines doc0) =
         [''- [ ] No channels selected for this rollout.'']"
    by blast
  from s have s0: "section_lines ''## 3. Channels''
     (document_lines (projr (render ''2026-01-01T00:00:00+00:00'' ''fly'' [] ''prod''))) =
     [''- [ ] No channels selected for this rollout.'']"
    unfolding r0 by simp
  show ?thesis by (intro conjI p n e s2 l2 s0)
qed

text \<open>
  Without the condition on the environment label the statement fails: the label is
  copied into the document as it is, so a label that holds a line feed and the heading
  puts its own lines under the first Channels heading of the document. For the valid
  provider \<open>fly\<close> and no channels, that section then has one line with \<open>Configure\<close> in
  it and no line that says no channels were selected.
\<close>

theorem document_channels_section_counterexample:
  "\<not> isl (render ''2026-01-01T00:00:00+00:00'' ''fly'' []
             ''prod\<newline>## 3. Channels\<newline>- [ ] Configure bogus: nowhere\<newline>'') \<and>
   section_lines ''## 3. Channels''
     (document_lines
        (projr (render ''2026-01-01T00:00:00+00:00'' ''fly'' []
                  ''prod\<newline>## 3. Channels\<newline>- [ ] Configure bogus: nowhere\<newline>''))) =
     [''- [ ] Configure bogus: nowhere''] \<and>
   length (filter (str_in ''No channels selected'') [''- [ ] Configure bogus: nowhere'']) = 0 \<and>
   length (filter (str_in ''Configure'') [''- [ ] Configure bogus: nowhere'']) = 1"
  by code_simp

lemma plan_main_refused:
  "provider_arg \<notin> fst ` set PROVIDER_LINKS \<Longrightarrow>
     plan_main path_str mkdir_parent write_text now provider_arg channels_arg environment_arg
       output_arg = Inr (2, [], None)"
  unfolding plan_main_def provider_choices link_keys by simp

lemma plan_main_invalid_channels:
  "provider_arg \<in> fst ` set PROVIDER_LINKS \<Longrightarrow> channels_arg \<noteq> [] \<Longrightarrow>
     parse_channels channels_arg = Inl (ValueError msg) \<Longrightarrow>
     plan_main path_str mkdir_parent write_text now provider_arg channels_arg environment_arg
       output_arg = Inr (1, [''[ERROR] '' @ msg], None)"
  unfolding plan_main_def provider_choices link_keys by simp

lemma plan_main_rendered:
  "provider_arg \<in> fst ` set PROVIDER_LINKS \<Longrightarrow>
     (if channels_arg = [] then chans = [] else parse_channels channels_arg = Inr chans) \<Longrightarrow>
     render now provider_arg chans environment_arg = Inr doc \<Longrightarrow>
     plan_main path_str mkdir_parent write_text now provider_arg channels_arg environment_arg
       output_arg =
       (case mkdir_parent output_arg of
          Some e \<Rightarrow> Inl e
        | None \<Rightarrow>
            (case write_text output_arg doc of
               Some e \<Rightarrow> Inl e
             | None \<Rightarrow>
                 Inr (0, [''[OK] Wrote rollout plan: '' @ path_str output_arg],
                      Some (path_str output_arg, doc))))"
  unfolding plan_main_def provider_choices link_keys by (auto split: if_splits)

lemma render_total_valid:
  assumes "provider \<in> fst ` set PROVIDER_LINKS"
    and "\<forall>c \<in> set channels. c \<in> fst ` set CHANNEL_LINKS"
  shows "\<exists>doc. render now provider channels environment = Inr doc"
proof -
  from assms(1) obtain url where u: "map_of PROVIDER_LINKS provider = Some url"
    unfolding link_keys provider_known by blast
  from assms(2) have v: "\<forall>c \<in> set channels. c \<in> {''telegram'', ''discord'', ''slack''}"
    unfolding link_keys .
  show ?thesis
    unfolding render_valid [OF u v] by blast
qed

text \<open>
  Claim C10. The keys of \<open>PROVIDER_LINKS\<close> are the five providers and those of
  \<open>CHANNEL_LINKS\<close> the three channels. When the provider is such a key and every
  channel of the list is one, \<open>render\<close> returns a document: neither lookup raises.
  \<open>main\<close> reaches \<open>render\<close> only with such arguments. Either the provider argument is
  not one of the five, and the run ends with exit code 2; or \<open>parse_channels\<close> raises
  its \<open>ValueError\<close>, and the run ends with exit code 1; or the provider argument is
  one of the five, the channel list is empty or what \<open>parse_channels\<close> returned, all
  of it among the three, \<open>render\<close> returns a document, and what follows is decided by
  the directory creation and the write alone. So an exception that leaves \<open>main\<close> is
  one that the directory creation or the write raised, never a failed lookup.
\<close>

theorem render_total:
  "fst ` set PROVIDER_LINKS = {''fly'', ''render'', ''railway'', ''hetzner'', ''gcp''} \<and>
   fst ` set CHANNEL_LINKS = {''telegram'', ''discord'', ''slack''} \<and>
   (provider \<in> fst ` set PROVIDER_LINKS \<and> (\<forall>c \<in> set channels. c \<in> fst ` set CHANNEL_LINKS)
      \<longrightarrow> (\<exists>doc. render now provider channels environment = Inr doc)) \<and>
   ((provider_arg \<notin> fst ` set PROVIDER_LINKS \<and>
     plan_main path_str mkdir_parent write_text now provider_arg channels_arg environment_arg
       output_arg = Inr (2, [], None)) \<or>
    (provider_arg \<in> fst ` set PROVIDER_LINKS \<and> channels_arg \<noteq> [] \<and>
     (\<exists>msg. parse_channels channels_arg = Inl (ValueError msg) \<and>
        plan_main path_str mkdir_parent write_text now provider_arg channels_arg
          environment_arg output_arg = Inr (1, [''[ERROR] '' @ msg], None))) \<or>
    (provider_arg \<in> fst ` set PROVIDER_LINKS \<and>
     (\<exists>chans doc.
        (if channels_arg = [] then chans = [] else parse_channels channels_arg = Inr chans) \<and>
        (\<forall>c \<in> set chans. c \<in> fst ` set CHANNEL_LINKS) \<and>
        render now provider_arg chans environment_arg = Inr doc \<and>
        plan_main path_str mkdir_parent write_text now provider_arg channels_arg
          environment_arg output_arg =
          (case mkdir_parent output_arg of
             Some e \<Rightarrow> Inl e
           | None \<Rightarrow>
               (case write_text output_arg doc of
                  Some e \<Rightarrow> Inl e
                | None \<Rightarrow>
                    Inr (0, [''[OK] Wrote rollout plan: '' @ path_str output_arg],
                         Some (path_str output_arg, doc))))))) \<and>
   (\<forall>e. plan_main path_str mkdir_parent write_text now provider_arg channels_arg
          environment_arg output_arg = Inl e \<longrightarrow>
        mkdir_parent output_arg = Some e \<or> (\<exists>doc. write_text output_arg doc = Some e))"
proof -
  let ?main = "plan_main path_str mkdir_parent write_text now provider_arg channels_arg
       environment_arg output_arg"
  have tot: "provider \<in> fst ` set PROVIDER_LINKS \<and>
      (\<forall>c \<in> set channels. c \<in> fst ` set CHANNEL_LINKS)
      \<longrightarrow> (\<exists>doc. render now provider channels environment = Inr doc)"
    using render_total_valid by blast
  have cases: "(provider_arg \<notin> fst ` set PROVIDER_LINKS \<and> ?main = Inr (2, [], None)) \<or>
    (provider_arg \<in> fst ` set PROVIDER_LINKS \<and> channels_arg \<noteq> [] \<and>
     (\<exists>msg. parse_channels channels_arg = Inl (ValueError msg) \<and>
        ?main = Inr (1, [''[ERROR] '' @ msg], None))) \<or>
    (provider_arg \<in> fst ` set PROVIDER_LINKS \<and>
     (\<exists>chans doc.
        (if channels_arg = [] then chans = [] else parse_channels channels_arg = Inr chans) \<and>
        (\<forall>c \<in> set chans. c \<in> fst ` set CHANNEL_LINKS) \<and>
        render now provider_arg chans environment_arg = Inr doc \<and>
        ?main =
          (case mkdir_parent output_arg of
             Some e \<Rightarrow> Inl e
           | None \<Rightarrow>
               (case write_text output_arg doc of
                  Some e \<Rightarrow> Inl e
                | None \<Rightarrow>
                    Inr (0, [''[OK] Wrote rollout plan: '' @ path_str output_arg],
                         Some (path_str output_arg, doc))))))"
  proof (cases "provider_arg \<in> fst ` set PROVIDER_LINKS")
    case False
    with plan_main_refused [OF False] show ?thesis by blast
  next
    case True
    have valid: ?thesis
      if c: "if channels_arg = [] then chans = [] else parse_channels channels_arg = Inr chans"
        and v: "\<forall>c \<in> set chans. c \<in> fst ` set CHANNEL_LINKS" for chans
    proof -
      from render_total_valid [OF True v] obtain doc
        where d: "render now provider_arg chans environment_arg = Inr doc" by blast
      from plan_main_rendered [OF True c d] True c v d show ?thesis by blast
    qed
    show ?thesis
    proof (cases "channels_arg = []")
      case e: True
      show ?thesis by (rule valid [of "[]"]) (simp_all add: e)
    next
      case ne: False
      from parse_channels_cases [of channels_arg] show ?thesis
      proof
        assume "\<exists>msg. parse_channels channels_arg = Inl (ValueError msg)"
        then obtain msg where m: "parse_channels channels_arg = Inl (ValueError msg)" by blast
        from plan_main_invalid_channels [OF True ne m] True ne m show ?thesis by blast
      next
        assume "\<exists>channels. parse_channels channels_arg = Inr channels \<and>
           (\<forall>c \<in> set channels. c \<in> {''telegram'', ''discord'', ''slack''})"
        then obtain chans where pc: "parse_channels channels_arg = Inr chans"
          and v: "\<forall>c \<in> set chans. c \<in> fst ` set CHANNEL_LINKS"
          unfolding link_keys by blast
        show ?thesis by (rule valid [of chans]) (simp_all add: ne pc v)
      qed
    qed
  qed
  have raised: "\<forall>e. ?main = Inl e \<longrightarrow>
        mkdir_parent output_arg = Some e \<or> (\<exists>doc. write_text output_arg doc = Some e)"
  proof (intro allI impI)
    fix e assume r: "?main = Inl e"
    from cases
    show "mkdir_parent output_arg = Some e \<or> (\<exists>doc. write_text output_arg doc = Some e)"
    proof (elim disjE conjE exE)
      assume "?main = Inr (2, [], None)"
      with r show ?thesis by simp
    next
      fix msg assume "?main = Inr (1, [''[ERROR] '' @ msg], None)"
      with r show ?thesis by simp
    next
      fix chans doc
      assume m: "?main =
          (case mkdir_parent output_arg of
             Some e \<Rightarrow> Inl e
           | None \<Rightarrow>
               (case write_text output_arg doc of
                  Some e \<Rightarrow> Inl e
                | None \<Rightarrow>
                    Inr (0, [''[OK] Wrote rollout plan: '' @ path_str output_arg],
                         Some (path_str output_arg, doc))))"
      have "(case mkdir_parent output_arg of
             Some e \<Rightarrow> Inl e
           | None \<Rightarrow>
               (case write_text output_arg doc of
                  Some e \<Rightarrow> Inl e
                | None \<Rightarrow>
                    Inr (0 :: nat, [''[OK] Wrote rollout plan: '' @ path_str output_arg],
                         Some (path_str output_arg, doc)))) = Inl e"
        by (rule trans [OF m [symmetric] r])
      then show ?thesis by (auto split: option.splits)
    qed
  qed
  from link_keys tot cases raised show ?thesis by (intro conjI)
qed

theorem render_total_witness:
  "''gcp'' \<in> fst ` set PROVIDER_LINKS \<and>
   (\<exists>doc. render ''2026-01-01T00:00:00+00:00'' ''gcp'' [''telegram''] ''prod'' = Inr doc) \<and>
   plan_main posix_path_str (\<lambda>p. None) (\<lambda>p content. None)
       ''2026-01-01T00:00:00+00:00'' ''gcp'' ''Telegram'' ''prod'' ''./out//plan.md'' =
     Inr (0, [''[OK] Wrote rollout plan: out/plan.md''],
          Some (''out/plan.md'',
                projr (render ''2026-01-01T00:00:00+00:00'' ''gcp'' [''telegram''] ''prod''))) \<and>
   plan_main posix_path_str (\<lambda>p. None)
       (\<lambda>p content. Some (OSError ''[Errno 21] Is a directory''))
       ''2026-01-01T00:00:00+00:00'' ''gcp'' ''telegram'' ''prod'' ''.'' =
     Inl (OSError ''[Errno 21] Is a directory'') \<and>
   plan_main posix_path_str (\<lambda>p. None) (\<lambda>p content. None)
       ''2026-01-01T00:00:00+00:00'' ''aws'' ''telegram'' ''prod'' ''plan.md'' =
     Inr (2, [], None) \<and>
   plan_main posix_path_str (\<lambda>p. None) (\<lambda>p content. None)
       ''2026-01-01T00:00:00+00:00'' ''gcp'' ''irc'' ''prod'' ''plan.md'' =
     Inr (1, [''[ERROR] Unsupported channels: irc''], None)"
proof -
  note t = render_total [where provider = "''gcp''" and channels = "[''telegram'']"
      and now = "''2026-01-01T00:00:00+00:00''" and environment = "''prod''"
      and provider_arg = "''gcp''" and channels_arg = "''Telegram''"
      and environment_arg = "''prod''" and output_arg = "''./out//plan.md''"
      and path_str = posix_path_str and mkdir_parent = "\<lambda>p. None"
      and write_text = "\<lambda>p content. None"]
  have p: "''gcp'' \<in> fst ` set PROVIDER_LINKS"
    by (simp add: link_keys)
  have c: "\<forall>c \<in> set [''telegram'']. c \<in> fst ` set CHANNEL_LINKS"
    by (simp add: link_keys)
  have r: "\<exists>doc. render ''2026-01-01T00:00:00+00:00'' ''gcp'' [''telegram''] ''prod'' = Inr doc"
    by (rule t [THEN conjunct2, THEN conjunct2, THEN conjunct1, THEN mp, OF conjI [OF p c]])
  have m0: "plan_main posix_path_str (\<lambda>p. None) (\<lambda>p content. None)
       ''2026-01-01T00:00:00+00:00'' ''gcp'' ''Telegram'' ''prod'' ''./out//plan.md'' =
     Inr (0, [''[OK] Wrote rollout plan: out/plan.md''],
          Some (''out/plan.md'',
                projr (render ''2026-01-01T00:00:00+00:00'' ''gcp'' [''telegram''] ''prod'')))"
    by code_simp
  have mw: "plan_main posix_path_str (\<lambda>p. None)
       (\<lambda>p content. Some (OSError ''[Errno 21] Is a directory''))
       ''2026-01-01T00:00:00+00:00'' ''gcp'' ''telegram'' ''prod'' ''.'' =
     Inl (OSError ''[Errno 21] Is a directory'')"
    by code_simp
  have m2: "plan_main posix_path_str (\<lambda>p. None) (\<lambda>p content. None)
       ''2026-01-01T00:00:00+00:00'' ''aws'' ''telegram'' ''prod'' ''plan.md'' =
     Inr (2, [], None)"
    by code_simp
  have m1: "plan_main posix_path_str (\<lambda>p. None) (\<lambda>p content. None)
       ''2026-01-01T00:00:00+00:00'' ''gcp'' ''irc'' ''prod'' ''plan.md'' =
     Inr (1, [''[ERROR] Unsupported channels: irc''], None)"
    by code_simp
  show ?thesis by (intro conjI p r m0 mw m2 m1)
qed

end
